theory Spec2Isabelle
  imports Main "HOL-Library.Sublist"
begin

section \<open>Strings, names and attributes\<close>

text \<open>
  A Python \<open>str\<close> is a sequence of Unicode code points; it is modelled as a list of
  natural numbers. A literal of the source is written \<open>U ''...''\<close>: every character of
  the literals used here lies below 256, where the character code is the code point.
\<close>

type_synonym ustr = "nat list"

definition U :: "string \<Rightarrow> ustr" where
  "U s = map of_char s"

text \<open>
  lxml names a tag or an attribute in Clark notation, \<open>{namespace}local\<close>; the model keeps
  the two parts as a pair, with the empty namespace for an unqualified name.
\<close>

type_synonym qname = "string \<times> string"

definition TEI_NS :: string where
  "TEI_NS = ''http://www.tei-c.org/ns/1.0''"

definition XML_NS :: string where
  "XML_NS = ''http://www.w3.org/XML/1998/namespace''"

definition tei :: "string \<Rightarrow> qname" where
  "tei n = (TEI_NS, n)"

definition plain :: "string \<Rightarrow> qname" where
  "plain n = ([], n)"

definition xml_id :: qname where
  "xml_id = (XML_NS, ''id'')"

text \<open>
  The attributes of an element, in document order. \<open>attr_get\<close> is \<open>Element.get\<close>
  (\<open>None\<close> when the attribute is absent); \<open>attr_set\<close> is \<open>Element.set\<close>, which replaces
  the value of an attribute in place and appends a new attribute at the end.
\<close>

type_synonym attrib = "(qname \<times> ustr) list"

definition attr_get :: "attrib \<Rightarrow> qname \<Rightarrow> ustr option" where
  "attr_get a k = map_of a k"

fun attr_set :: "qname \<Rightarrow> ustr \<Rightarrow> attrib \<Rightarrow> attrib" where
  "attr_set k v [] = [(k, v)]"
| "attr_set k v (kv # a) = (if fst kv = k then (k, v) # a else kv # attr_set k v a)"

text \<open>Python's truth value of \<open>x\<close> in \<open>if x\<close>, for \<open>x\<close> a string or \<open>None\<close>.\<close>

fun truthy :: "ustr option \<Rightarrow> bool" where
  "truthy None = False"
| "truthy (Some s) = (s \<noteq> [])"

text \<open>\<open>x or ""\<close> for \<open>x\<close> a string or \<open>None\<close>.\<close>

fun or_empty :: "ustr option \<Rightarrow> ustr" where
  "or_empty None = []"
| "or_empty (Some s) = s"

text \<open>
  \<open>str.strip()\<close> without argument removes the leading and trailing characters that
  \<open>str.isspace\<close> accepts: the ASCII controls 9 to 13 and 28 to 31, the space, and the
  Unicode white space U+0085, U+00A0, U+1680, U+2000 to U+200A, U+2028, U+2029, U+202F,
  U+205F and U+3000.
\<close>

definition py_isspace :: "nat \<Rightarrow> bool" where
  "py_isspace c \<longleftrightarrow>
     (9 \<le> c \<and> c \<le> 13) \<or> (28 \<le> c \<and> c \<le> 32) \<or> c = 133 \<or> c = 160 \<or> c = 5760 \<or>
     (8192 \<le> c \<and> c \<le> 8202) \<or> c = 8232 \<or> c = 8233 \<or> c = 8239 \<or> c = 8287 \<or> c = 12288"

definition strip :: "ustr \<Rightarrow> ustr" where
  "strip s = rev (dropWhile py_isspace (rev (dropWhile py_isspace s)))"

section \<open>The document tree\<close>

text \<open>
  An lxml node is an element (tag, attributes, text before the first child, children,
  tail text after the end tag) or a comment or processing instruction, which has a
  content and a tail and is never selected by a path query.
\<close>

datatype node =
    Element qname attrib "ustr option" "node list" "ustr option"
  | Misc ustr "ustr option"

section \<open>Child queries\<close>

text \<open>\<open>is_elem t n\<close>: the node \<open>n\<close> is an element with tag \<open>t\<close>.\<close>

fun is_elem :: "qname \<Rightarrow> node \<Rightarrow> bool" where
  "is_elem t (Element t' a x cs y) = (t' = t)"
| "is_elem t (Misc c y) = False"

text \<open>
  \<open>has_child t cs\<close>: \<open>find("tei:t")\<close> on an element with children \<open>cs\<close> returns a node.
\<close>

definition has_child :: "qname \<Rightarrow> node list \<Rightarrow> bool" where
  "has_child t cs = list_ex (is_elem t) cs"

text \<open>
  \<open>has_typed_child t k v cs\<close>: the relative query \<open>tei:t[@k="v"]\<close> on an element with
  children \<open>cs\<close> returns a non-empty list.
\<close>

fun is_typed_elem :: "qname \<Rightarrow> qname \<Rightarrow> ustr \<Rightarrow> node \<Rightarrow> bool" where
  "is_typed_elem t k v (Element t' a x cs y) = (t' = t \<and> attr_get a k = Some v)"
| "is_typed_elem t k v (Misc c y) = False"

definition has_typed_child :: "qname \<Rightarrow> qname \<Rightarrow> ustr \<Rightarrow> node list \<Rightarrow> bool" where
  "has_typed_child t k v cs = list_ex (is_typed_elem t k v) cs"

section \<open>Node references and absolute queries\<close>

text \<open>
  A node of a document is referred to by its path from the root: the list of child
  indices. \<open>get_at\<close> reads the node at a path, \<open>update_at\<close> replaces it by its image
  under a function; a path that leads nowhere reads \<open>None\<close> and updates nothing.
\<close>

type_synonym path = "nat list"

fun get_at :: "node \<Rightarrow> path \<Rightarrow> node option" where
  "get_at n [] = Some n"
| "get_at (Element t a x cs y) (i # p) = (if i < length cs then get_at (cs ! i) p else None)"
| "get_at (Misc c y) (i # p) = None"

fun update_at :: "path \<Rightarrow> (node \<Rightarrow> node) \<Rightarrow> node \<Rightarrow> node" where
  "update_at [] f n = f n"
| "update_at (i # p) f (Element t a x cs y) =
     (if i < length cs then Element t a x (cs[i := update_at p f (cs ! i)]) y
      else Element t a x cs y)"
| "update_at (i # p) f (Misc c y) = Misc c y"

text \<open>
  The elements of a subtree in document order, each with its path, the tags of its
  ancestors (the parent first) and the element itself. \<open>anc\<close> holds the tags of the
  ancestors of the subtree's root; \<open>elems_from\<close> lists the elements below the children
  \<open>cs\<close>, the first of which has index \<open>i\<close>.
\<close>

fun elems :: "qname list \<Rightarrow> node \<Rightarrow> (path \<times> qname list \<times> node) list"
  and elems_from :: "qname list \<Rightarrow> nat \<Rightarrow> node list \<Rightarrow> (path \<times> qname list \<times> node) list" where
  "elems anc (Element t a x cs y) = ([], anc, Element t a x cs y) # elems_from (t # anc) 0 cs"
| "elems anc (Misc c y) = []"
| "elems_from anc i [] = []"
| "elems_from anc i (c # cs) =
     map (\<lambda>(p, r). (i # p, r)) (elems anc c) @ elems_from anc (Suc i) cs"

text \<open>\<open>under ts anc\<close>: the nearest ancestors have the tags \<open>ts\<close>, the parent first.\<close>

definition under :: "qname list \<Rightarrow> qname list \<Rightarrow> bool" where
  "under ts anc = prefix ts anc"

text \<open>
  An absolute query: the elements of the document that pass the test \<open>Q\<close> on the tags of
  their ancestors and on the element, in document order, each with its path.
\<close>

definition xpath :: "(qname list \<Rightarrow> node \<Rightarrow> bool) \<Rightarrow> node \<Rightarrow> (path \<times> node) list" where
  "xpath Q root =
     map (\<lambda>(p, anc, n). (p, n)) (filter (\<lambda>(p, anc, n). Q anc n) (elems [] root))"

text \<open>
  The loop \<open>for n in root.xpath(query): body\<close>, for a query that tests the element alone.
  The query is evaluated once, on the tree as it is before the loop; the body then runs on
  each selected node in document order. A body that changes the attributes of its node or
  appends children to it leaves the paths of the nodes still to be visited in place.
\<close>

definition for_each :: "(node \<Rightarrow> bool) \<Rightarrow> (node \<Rightarrow> node) \<Rightarrow> node \<Rightarrow> node" where
  "for_each W body root =
     foldl (\<lambda>t p. update_at p body t) root (map fst (xpath (\<lambda>anc. W) root))"

section \<open>The identifier rules\<close>

definition WIKIDATA_URL :: ustr where
  "WIKIDATA_URL = U ''https://www.wikidata.org/wiki/''"

definition GND_URL :: ustr where
  "GND_URL = U ''https://d-nb.info/gnd/''"

text \<open>The test of \<open>//tei:idno[@type="..."]\<close> on one element.\<close>

definition is_idno :: "ustr \<Rightarrow> qname \<Rightarrow> attrib \<Rightarrow> bool" where
  "is_idno ty t a \<longleftrightarrow> t = tei ''idno'' \<and> attr_get a (plain ''type'') = Some ty"

text \<open>The body of the loop of \<open>add_wikidata_corresp\<close>: the attributes it leaves.\<close>

definition wikidata_attrib :: "attrib \<Rightarrow> ustr option \<Rightarrow> attrib" where
  "wikidata_attrib a x =
     (let qid = strip (or_empty x)
      in if qid \<noteq> [] \<and> \<not> truthy (attr_get a (plain ''corresp''))
         then attr_set (plain ''corresp'') (WIKIDATA_URL @ qid) a
         else a)"

fun wikidata_body :: "node \<Rightarrow> node" where
  "wikidata_body (Element t a x cs y) = Element t (wikidata_attrib a x) x cs y"
| "wikidata_body (Misc c y) = Misc c y"

text \<open>\<open>add_wikidata_corresp\<close>: the loop over \<open>//tei:idno[@type="wikidata"]\<close>.\<close>

definition add_wikidata_corresp :: "node \<Rightarrow> node" where
  "add_wikidata_corresp root =
     for_each (is_typed_elem (tei ''idno'') (plain ''type'') (U ''wikidata'')) wikidata_body root"

text \<open>The body of the loop of \<open>convert_pnd_to_gnd\<close>: the attributes it leaves.\<close>

definition pnd_attrib :: "attrib \<Rightarrow> ustr option \<Rightarrow> attrib" where
  "pnd_attrib a x =
     (let num = strip (or_empty x);
          a1 = attr_set (plain ''type'') (U ''gnd'') a
      in if num \<noteq> [] \<and> \<not> truthy (attr_get a1 (plain ''corresp''))
         then attr_set (plain ''corresp'') (GND_URL @ num) a1
         else a1)"

fun pnd_body :: "node \<Rightarrow> node" where
  "pnd_body (Element t a x cs y) = Element t (pnd_attrib a x) x cs y"
| "pnd_body (Misc c y) = Misc c y"

text \<open>\<open>convert_pnd_to_gnd\<close>: the loop over \<open>//tei:idno[@type="pnd"]\<close>.\<close>

definition convert_pnd_to_gnd :: "node \<Rightarrow> node" where
  "convert_pnd_to_gnd root =
     for_each (is_typed_elem (tei ''idno'') (plain ''type'') (U ''pnd'')) pnd_body root"

section \<open>The language-usage rule\<close>

definition new_langUsage :: node where
  "new_langUsage =
     Element (tei ''langUsage'') [] None
       [Element (tei ''language'') [(plain ''ident'', U ''spa'')] (Some (U ''Spanish'')) [] None]
       None"

text \<open>
  The body of the loop: a \<open>profileDesc\<close> on which \<open>find("tei:langUsage")\<close> returns nothing
  gets the fixed \<open>langUsage\<close> appended.
\<close>

fun langusage_body :: "node \<Rightarrow> node" where
  "langusage_body (Element t a x cs y) =
     (if \<not> has_child (tei ''langUsage'') cs then Element t a x (cs @ [new_langUsage]) y
      else Element t a x cs y)"
| "langusage_body (Misc c y) = Misc c y"

text \<open>\<open>ensure_langusage_spanish\<close>: the loop over \<open>//tei:profileDesc\<close>.\<close>

definition ensure_langusage_spanish :: "node \<Rightarrow> node" where
  "ensure_langusage_spanish root = for_each (is_elem (tei ''profileDesc'')) langusage_body root"

section \<open>The classification-keywords rule\<close>

definition BK_SCHEME :: ustr where
  "BK_SCHEME = U ''http://uri.gbv.de/terminology/bk/''"

definition GND_SCHEME :: ustr where
  "GND_SCHEME = U ''https://d-nb.info/gnd/''"

definition TG_SCHEME :: ustr where
  "TG_SCHEME = U ''http://textgrid.info/namespaces/metadata/core/2010#genre''"

definition kw_bk :: node where
  "kw_bk =
     Element (tei ''keywords'') [(plain ''scheme'', BK_SCHEME)] None
       [Element (tei ''term'')
          [(plain ''type'', U ''basicClassification''), (plain ''key'', U ''17.97'')]
          (Some (U ''Texts by a single author'')) [] None,
        Element (tei ''term'')
          [(plain ''type'', U ''basicClassification''), (plain ''key'', U ''18.30'')]
          (Some (U ''Spanish language and literature'')) [] None]
       None"

definition kw_gnd :: node where
  "kw_gnd =
     Element (tei ''keywords'') [(plain ''scheme'', GND_SCHEME)] None
       [Element (tei ''term'')
          [(plain ''type'', U ''testament''), (plain ''ref'', U ''http://d-nb.info/gnd/4304080-9'')]
          (Some (U (''Theaterst'' @ [CHR 0xFC] @ ''ck''))) [] None]
       None"

definition kw_tg :: node where
  "kw_tg =
     Element (tei ''keywords'') [(plain ''scheme'', TG_SCHEME)] None
       [Element (tei ''term'') [(plain ''type'', U ''genre-tg'')] (Some (U ''drama'')) [] None]
       None"

text \<open>\<open>has_keywords s cs\<close>: the query \<open>tei:keywords[@scheme="s"]\<close> finds a child.\<close>

definition has_keywords :: "ustr \<Rightarrow> node list \<Rightarrow> bool" where
  "has_keywords s cs = has_typed_child (tei ''keywords'') (plain ''scheme'') s cs"

text \<open>
  One of the three steps of the loop body: when no \<open>keywords\<close> child has the scheme,
  the fixed group \<open>g\<close> is appended.
\<close>

definition ensure_group :: "ustr \<Rightarrow> node \<Rightarrow> node list \<Rightarrow> node list" where
  "ensure_group s g cs = (if \<not> has_keywords s cs then cs @ [g] else cs)"

text \<open>The body of the loop: the children it leaves, by the three steps in order.\<close>

definition textclass_children :: "node list \<Rightarrow> node list" where
  "textclass_children cs =
     ensure_group TG_SCHEME kw_tg (ensure_group GND_SCHEME kw_gnd (ensure_group BK_SCHEME kw_bk cs))"

fun keywords_body :: "node \<Rightarrow> node" where
  "keywords_body (Element t a x cs y) = Element t a x (textclass_children cs) y"
| "keywords_body (Misc c y) = Misc c y"

text \<open>\<open>ensure_textclass_keywords\<close>: the loop over \<open>//tei:textClass\<close>.\<close>

definition ensure_textclass_keywords :: "node \<Rightarrow> node" where
  "ensure_textclass_keywords root = for_each (is_elem (tei ''textClass'')) keywords_body root"

section \<open>The name rule\<close>

definition ORCID_ROJAS :: ustr where
  "ORCID_ROJAS = U ''https://orcid.org/0000-0002-8916-4997''"

text \<open>The non-\<open>None\<close> values that \<open>itertext\<close> yields for one text or tail slot.\<close>

fun pieces :: "ustr option \<Rightarrow> ustr list" where
  "pieces None = []"
| "pieces (Some s) = [s]"

text \<open>
  What \<open>itertext\<close> yields inside a child subtree: the text of an element, the pieces of
  its children, then its tail; of a comment or processing instruction only the tail.
\<close>

fun itertext_tail :: "node \<Rightarrow> ustr list" where
  "itertext_tail (Element t a x cs y) = pieces x @ concat (map itertext_tail cs) @ pieces y"
| "itertext_tail (Misc c y) = pieces y"

text \<open>\<open>itertext\<close> of an element with text \<open>x\<close> and children \<open>cs\<close>: its own tail is left out.\<close>

definition itertext :: "ustr option \<Rightarrow> node list \<Rightarrow> ustr list" where
  "itertext x cs = pieces x @ concat (map itertext_tail cs)"

text \<open>\<open>" ".join(xs)\<close>\<close>

fun join_sp :: "ustr list \<Rightarrow> ustr" where
  "join_sp [] = []"
| "join_sp [s] = s"
| "join_sp (s # s' # ss) = s @ [32] @ join_sp (s' # ss)"

text \<open>\<open>s.replace("\xa0", " ")\<close>\<close>

definition replace_nbsp :: "ustr \<Rightarrow> ustr" where
  "replace_nbsp s = map (\<lambda>c. if c = 160 then 32 else c) s"

definition full_text :: "ustr option \<Rightarrow> node list \<Rightarrow> ustr" where
  "full_text x cs = replace_nbsp (strip (join_sp (itertext x cs)))"

text \<open>\<open>needle in hay\<close> for strings: \<open>needle\<close> occurs as a contiguous part of \<open>hay\<close>.\<close>

fun py_in :: "ustr \<Rightarrow> ustr \<Rightarrow> bool" where
  "py_in needle [] = (needle = [])"
| "py_in needle (c # hay) = (prefix needle (c # hay) \<or> py_in needle hay)"

text \<open>The heuristic of the loop body, on the attributes, text and children of an entry.\<close>

definition persname_matches :: "attrib \<Rightarrow> ustr option \<Rightarrow> node list \<Rightarrow> bool" where
  "persname_matches a x cs \<longleftrightarrow>
     attr_get a xml_id = Some (U ''rojas'') \<or>
     (py_in (U ''Rojas'') (full_text x cs) \<and> py_in (U ''Antonio'') (full_text x cs))"

text \<open>
  What the loop body leaves of a matching entry: \<open>clear()\<close> drops the attributes, the
  text, the children and the tail, then the two attributes and the two children are set.
\<close>

definition rojas_entry :: "qname \<Rightarrow> node" where
  "rojas_entry t =
     Element t [(xml_id, U ''rojas''), (plain ''corresp'', ORCID_ROJAS)] None
       [Element (tei ''forename'') [] (Some (U ''Antonio'')) [] None,
        Element (tei ''surname'') [] (Some (U ''Rojas Castro'')) [] None]
       None"

text \<open>\<open>//tei:respStmt/tei:persName\<close>: the entries the loop of the name rule scans.\<close>

definition is_persname_entry :: "qname list \<Rightarrow> node \<Rightarrow> bool" where
  "is_persname_entry anc n \<longleftrightarrow> is_elem (tei ''persName'') n \<and> under [tei ''respStmt''] anc"

definition persname_entries :: "node \<Rightarrow> (path \<times> node) list" where
  "persname_entries root = xpath is_persname_entry root"

text \<open>The heuristic on an entry.\<close>

fun entry_matches :: "node \<Rightarrow> bool" where
  "entry_matches (Element t a x cs y) = persname_matches a x cs"
| "entry_matches (Misc c y) = False"

text \<open>The body of the loop: an entry that does not match is skipped, one that matches is rebuilt.\<close>

fun persname_body :: "node \<Rightarrow> node" where
  "persname_body (Element t a x cs y) =
     (if persname_matches a x cs then rojas_entry t else Element t a x cs y)"
| "persname_body (Misc c y) = Misc c y"

text \<open>
  One pass of the loop. The query is evaluated once, and it also returns entries that lie
  inside other entries, an enclosing entry before the entries inside it. \<open>clear()\<close> on a
  matching entry detaches the nodes inside it from the document: they stay in the list and
  the loop still visits them, but what it does to a detached node does not reach the tree.
  The state of the loop is the tree and the paths of the entries rebuilt so far; an entry
  below one of them is detached. An entry that is still in the tree is read where it is.
\<close>

definition persname_visit :: "node \<times> path list \<Rightarrow> path \<Rightarrow> node \<times> path list" where
  "persname_visit s p =
     (case s of (t, rebuilt) \<Rightarrow>
        if list_ex (\<lambda>q. strict_prefix q p) rebuilt then (t, rebuilt)
        else (case get_at t p of
                None \<Rightarrow> (t, rebuilt)
              | Some n \<Rightarrow>
                  if entry_matches n then (update_at p persname_body t, p # rebuilt)
                  else (t, rebuilt)))"

definition normalize_persname_rojas :: "node \<Rightarrow> node" where
  "normalize_persname_rojas root =
     fst (foldl persname_visit (root, []) (map fst (persname_entries root)))"

section \<open>The publisher rule\<close>

text \<open>\<open>//tei:fileDesc/tei:publicationStmt\<close>: the paths of the selected elements.\<close>

definition is_pub_stmt :: "qname list \<Rightarrow> node \<Rightarrow> bool" where
  "is_pub_stmt anc n \<longleftrightarrow> is_elem (tei ''publicationStmt'') n \<and> under [tei ''fileDesc''] anc"

definition pub_stmts :: "node \<Rightarrow> path list" where
  "pub_stmts root = map fst (xpath is_pub_stmt root)"



definition PUBLISHER_TEXT :: ustr where
  "PUBLISHER_TEXT =
     U (''Tracing Regularities in Pedro Calder'' @ [CHR 0xF3] @ ''n de la Barca's Dramatic OEuvre '' @
        ''with a Computational Approach (508056339)'')"

fun set_text :: "ustr \<Rightarrow> node \<Rightarrow> node" where
  "set_text s (Element t a x cs y) = Element t a (Some s) cs y"
| "set_text s (Misc c y) = Misc c y"

text \<open>
  \<open>set_first_publisher cs\<close>: when \<open>find("tei:publisher")\<close> returns a child, its text is
  overwritten; \<open>None\<close> when there is no such child.
\<close>

fun set_first_publisher :: "node list \<Rightarrow> node list option" where
  "set_first_publisher [] = None"
| "set_first_publisher (c # cs) =
     (if is_elem (tei ''publisher'') c then Some (set_text PUBLISHER_TEXT c # cs)
      else map_option ((#) c) (set_first_publisher cs))"

fun publisher_step :: "node \<Rightarrow> node" where
  "publisher_step (Element t a x cs y) =
     (case set_first_publisher cs of
        None \<Rightarrow> Element t a x (cs @ [Element (tei ''publisher'') [] (Some PUBLISHER_TEXT) [] None]) y
      | Some cs' \<Rightarrow> Element t a x cs' y)"
| "publisher_step (Misc c y) = Misc c y"

definition ensure_publisher :: "node \<Rightarrow> node" where
  "ensure_publisher root =
     (case pub_stmts root of
        [] \<Rightarrow> root
      | p # ps \<Rightarrow> update_at p publisher_step root)"

section \<open>The corpus-identifier rule\<close>

fun caldracor_step :: "ustr \<Rightarrow> node \<Rightarrow> node" where
  "caldracor_step basename (Element t a x cs y) =
     (if has_typed_child (tei ''idno'') (plain ''type'') (U ''caldracor'') cs
      then Element t a x cs y
      else Element t a x
             (cs @ [Element (tei ''idno'') [(plain ''type'', U ''caldracor'')] (Some basename) [] None]) y)"
| "caldracor_step basename (Misc c y) = Misc c y"

definition ensure_caldracor_id :: "node \<Rightarrow> ustr \<Rightarrow> node" where
  "ensure_caldracor_id root basename =
     (case pub_stmts root of
        [] \<Rightarrow> root
      | p # ps \<Rightarrow> update_at p (caldracor_step basename) root)"

section \<open>The creation-date rule\<close>

text \<open>
  \<open>root.find(".//tei:profileDesc")\<close> searches below the root: the root element itself is
  not a candidate.
\<close>

definition is_profile_desc :: "qname list \<Rightarrow> node \<Rightarrow> bool" where
  "is_profile_desc anc n \<longleftrightarrow> is_elem (tei ''profileDesc'') n"

definition profile_descs :: "node \<Rightarrow> (path \<times> node) list" where
  "profile_descs root = filter (\<lambda>(p, n). p \<noteq> []) (xpath is_profile_desc root)"

text \<open>\<open>//tei:standOff/tei:listEvent/tei:event[@type='ty']\<close>: the selected elements.\<close>

definition is_event :: "ustr \<Rightarrow> qname list \<Rightarrow> node \<Rightarrow> bool" where
  "is_event ty anc n \<longleftrightarrow>
     is_typed_elem (tei ''event'') (plain ''type'') ty n \<and>
     under [tei ''listEvent'', tei ''standOff''] anc"

definition events :: "ustr \<Rightarrow> node \<Rightarrow> node list" where
  "events ty root = map snd (xpath (is_event ty) root)"

definition select_event :: "node \<Rightarrow> node option" where
  "select_event root =
     (case events (U ''written'') root of
        e # es \<Rightarrow> Some e
      | [] \<Rightarrow> (case events (U ''print'') root of e # es \<Rightarrow> Some e | [] \<Rightarrow> None))"

fun attrib_of :: "node \<Rightarrow> attrib" where
  "attrib_of (Element t a x cs y) = a"
| "attrib_of (Misc c y) = []"

text \<open>The loop that copies the date attributes of the event \<open>ev\<close> onto the attributes \<open>d\<close>.\<close>

fun copy_attrs :: "qname list \<Rightarrow> attrib \<Rightarrow> attrib \<Rightarrow> attrib" where
  "copy_attrs [] ev d = d"
| "copy_attrs (k # ks) ev d =
     copy_attrs ks ev
       (case attr_get ev k of
          None \<Rightarrow> d
        | Some v \<Rightarrow> if truthy (Some v) then attr_set k v d else d)"

definition date_attrib :: "attrib \<Rightarrow> attrib" where
  "date_attrib ev = copy_attrs [plain ''when'', plain ''notBefore'', plain ''notAfter''] ev []"

definition new_creation :: "attrib \<Rightarrow> node" where
  "new_creation ev =
     Element (tei ''creation'') [] None [Element (tei ''date'') (date_attrib ev) None [] None] None"

fun children_of :: "node \<Rightarrow> node list" where
  "children_of (Element t a x cs y) = cs"
| "children_of (Misc c y) = []"

fun append_child :: "node \<Rightarrow> node \<Rightarrow> node" where
  "append_child c (Element t a x cs y) = Element t a x (cs @ [c]) y"
| "append_child c (Misc c' y) = Misc c' y"

definition ensure_creation_from_events :: "node \<Rightarrow> node" where
  "ensure_creation_from_events root =
     (case profile_descs root of
        [] \<Rightarrow> root
      | (p, profile_desc) # ps \<Rightarrow>
          if has_child (tei ''creation'') (children_of profile_desc) then root
          else (case select_event root of
                  None \<Rightarrow> root
                | Some event_el \<Rightarrow> update_at p (append_child (new_creation (attrib_of event_el))) root))"

section \<open>The pipeline\<close>

text \<open>
  \<open>process_file\<close> applies the eight rules in a fixed order. Reading and parsing the input,
  deriving the base name from the file name and writing the output are outside the model:
  the function takes the parsed root element and the base name and returns the tree that
  is written.
\<close>

definition process_file :: "node \<Rightarrow> ustr \<Rightarrow> node" where
  "process_file root basename =
     ensure_creation_from_events
       (ensure_caldracor_id
          (ensure_publisher
             (normalize_persname_rojas
                (ensure_textclass_keywords
                   (ensure_langusage_spanish
                      (convert_pnd_to_gnd
                         (add_wikidata_corresp root))))))
          basename)"

section \<open>The date attributes, as the specification words them\<close>

text \<open>
  The three temporal attributes that an event carries with a non-empty value, in the
  order \<open>when\<close>, \<open>notBefore\<close>, \<open>notAfter\<close>. To be compared with \<open>date_attrib\<close>, the loop of
  the source.
\<close>

definition carried_dates :: "attrib \<Rightarrow> attrib" where
  "carried_dates ev =
     concat (map (\<lambda>k. case attr_get ev k of
                          None \<Rightarrow> []
                        | Some v \<Rightarrow> if v = [] then [] else [(k, v)])
               [plain ''when'', plain ''notBefore'', plain ''notAfter''])"

section \<open>The keyword groups, as the specification words them\<close>

text \<open>
  The fixed groups whose scheme is not among the \<open>keywords\<close> children \<open>cs\<close>, each test on
  its own. To be compared with \<open>textclass_children\<close>, the three steps of the source.
\<close>

definition missing_groups :: "node list \<Rightarrow> node list" where
  "missing_groups cs =
     (if has_keywords BK_SCHEME cs then [] else [kw_bk]) @
     (if has_keywords GND_SCHEME cs then [] else [kw_gnd]) @
     (if has_keywords TG_SCHEME cs then [] else [kw_tg])"


section \<open>The name rule as a recursion over the tree\<close>

text \<open>\<open>scanned par t\<close>: an element with tag \<open>t\<close> whose parent has tag \<open>par\<close> is selected by
  \<open>//tei:respStmt/tei:persName\<close>. The root element has no parent element.\<close>

definition scanned :: "qname option \<Rightarrow> qname \<Rightarrow> bool" where
  "scanned par t \<longleftrightarrow> t = tei ''persName'' \<and> par = Some (tei ''respStmt'')"

text \<open>
  The recursion that the loop computes: a scanned entry that matches is rebuilt, and
  nothing inside it is looked at; any other element keeps its shell, and the recursion
  goes on in its children. The recursion carries the tag of the parent.
\<close>

fun normalize_persname_in :: "qname option \<Rightarrow> node \<Rightarrow> node" where
  "normalize_persname_in par (Element t a x cs y) =
     (if scanned par t \<and> persname_matches a x cs
      then rojas_entry t
      else Element t a x (map (normalize_persname_in (Some t)) cs) y)"
| "normalize_persname_in par (Misc c y) = Misc c y"

text \<open>The tag of the parent, from the tags of the ancestors.\<close>

fun parent_tag :: "qname list \<Rightarrow> qname option" where
  "parent_tag [] = None"
| "parent_tag (t # anc) = Some t"

text \<open>
  \<open>has_match par n\<close>: the subtree \<open>n\<close>, whose parent has tag \<open>par\<close>, holds a scanned entry that
  matches. \<open>persname_stable par n\<close>: no scanned entry that does not match encloses a scanned
  entry that matches.
\<close>

fun has_match :: "qname option \<Rightarrow> node \<Rightarrow> bool" where
  "has_match par (Element t a x cs y) =
     ((scanned par t \<and> persname_matches a x cs) \<or> list_ex (has_match (Some t)) cs)"
| "has_match par (Misc c y) = False"

fun persname_stable :: "qname option \<Rightarrow> node \<Rightarrow> bool" where
  "persname_stable par (Element t a x cs y) =
     (if scanned par t then persname_matches a x cs \<or> \<not> list_ex (has_match (Some t)) cs
      else list_all (persname_stable (Some t)) cs)"
| "persname_stable par (Misc c y) = True"

section \<open>What a rule writes to\<close>

text \<open>
  For each rule, the test of the nodes it writes to: the nodes its query selects and its
  guard lets through.
\<close>

fun wikidata_writes :: "node \<Rightarrow> bool" where
  "wikidata_writes (Element t a x cs y) =
     (is_idno (U ''wikidata'') t a \<and> strip (or_empty x) \<noteq> [] \<and>
      \<not> truthy (attr_get a (plain ''corresp'')))"
| "wikidata_writes (Misc c y) = False"

fun pnd_writes :: "node \<Rightarrow> bool" where
  "pnd_writes (Element t a x cs y) = is_idno (U ''pnd'') t a"
| "pnd_writes (Misc c y) = False"

fun langusage_writes :: "node \<Rightarrow> bool" where
  "langusage_writes (Element t a x cs y) =
     (t = tei ''profileDesc'' \<and> \<not> has_child (tei ''langUsage'') cs)"
| "langusage_writes (Misc c y) = False"

fun keywords_writes :: "node \<Rightarrow> bool" where
  "keywords_writes (Element t a x cs y) = (t = tei ''textClass'' \<and> missing_groups cs \<noteq> [])"
| "keywords_writes (Misc c y) = False"

definition persname_writes :: "qname list \<Rightarrow> node \<Rightarrow> bool" where
  "persname_writes anc n \<longleftrightarrow> is_persname_entry anc n \<and> entry_matches n"

text \<open>The paths of the nodes of a document that pass a test.\<close>

definition targets :: "(qname list \<Rightarrow> node \<Rightarrow> bool) \<Rightarrow> node \<Rightarrow> path list" where
  "targets Q root = map fst (xpath Q root)"

text \<open>
  The three rules that work on one container write to the first node their query selects,
  unless their guard returns before anything is written.
\<close>

definition publisher_targets :: "node \<Rightarrow> path list" where
  "publisher_targets root = take 1 (pub_stmts root)"

definition caldracor_targets :: "node \<Rightarrow> path list" where
  "caldracor_targets root =
     (case pub_stmts root of
        [] \<Rightarrow> []
      | p # ps \<Rightarrow>
          (case get_at root p of
             None \<Rightarrow> []
           | Some n \<Rightarrow>
               if has_typed_child (tei ''idno'') (plain ''type'') (U ''caldracor'') (children_of n)
               then [] else [p]))"

definition creation_targets :: "node \<Rightarrow> path list" where
  "creation_targets root =
     (case profile_descs root of
        [] \<Rightarrow> []
      | (p, profile_desc) # ps \<Rightarrow>
          if has_child (tei ''creation'') (children_of profile_desc) \<or> select_event root = None
          then [] else [p])"

text \<open>
  \<open>outside T p\<close>: the path \<open>p\<close> is not in the subtree of any node of \<open>T\<close>. The shell of a
  node is its name, attributes, text and tail (for a comment or processing instruction, its
  content and tail). \<open>frame_at T D D' p\<close>: if \<open>p\<close> is outside \<open>T\<close>, then \<open>p\<close> leads to a node of
  \<open>D'\<close> exactly when it leads to a node of \<open>D\<close>, and the two nodes have the same shell. So
  outside \<open>T\<close> the tree \<open>D'\<close> has every node of \<open>D\<close>, unchanged, and no node that \<open>D\<close> lacks.
\<close>

definition outside :: "path list \<Rightarrow> path \<Rightarrow> bool" where
  "outside T p = list_all (\<lambda>q. \<not> prefix q p) T"

fun shell :: "node \<Rightarrow> node" where
  "shell (Element t a x cs y) = Element t a x [] y"
| "shell (Misc c y) = Misc c y"

definition frame_at :: "path list \<Rightarrow> node \<Rightarrow> node \<Rightarrow> path \<Rightarrow> bool" where
  "frame_at T D D' p \<longleftrightarrow>
     (outside T p \<longrightarrow> map_option shell (get_at D' p) = map_option shell (get_at D p))"

section \<open>The paths a query selects\<close>

text \<open>
  The paths of the elements of a subtree that pass the test \<open>Q\<close>, in document order:
  the first components of the query's result, by recursion over the tree.
\<close>

fun paths_of :: "(qname list \<Rightarrow> node \<Rightarrow> bool) \<Rightarrow> qname list \<Rightarrow> node \<Rightarrow> path list"
  and paths_from :: "(qname list \<Rightarrow> node \<Rightarrow> bool) \<Rightarrow> qname list \<Rightarrow> nat \<Rightarrow> node list \<Rightarrow> path list" where
  "paths_of Q anc (Element t a x cs y) =
     (if Q anc (Element t a x cs y) then [ [] ] else []) @ paths_from Q (t # anc) 0 cs"
| "paths_of Q anc (Misc c y) = []"
| "paths_from Q anc i [] = []"
| "paths_from Q anc i (c # cs) = map ((#) i) (paths_of Q anc c) @ paths_from Q anc (Suc i) cs"

text \<open>A test is shallow when it reads the tag and the attributes of the element only.\<close>

definition shallow :: "(qname list \<Rightarrow> node \<Rightarrow> bool) \<Rightarrow> bool" where
  "shallow Q \<longleftrightarrow>
     (\<forall>anc t a x cs y x' cs' y'. Q anc (Element t a x cs y) = Q anc (Element t a x' cs' y'))"

section \<open>Example documents\<close>


definition ex_wikidata :: node where
  "ex_wikidata = Element (tei ''idno'') [(plain ''type'', U ''wikidata'')] (Some (U ''Q42'')) [] None"

definition ex_wikidata_empty_corresp :: node where
  "ex_wikidata_empty_corresp =
     Element (tei ''idno'') [(plain ''type'', U ''wikidata''), (plain ''corresp'', [])]
       (Some (U ''Q42'')) [] None"

definition ex_pnd :: node where
  "ex_pnd = Element (tei ''idno'') [(plain ''type'', U ''pnd'')] (Some (U ''118529579'')) [] None"

definition ex_pnd_empty_corresp :: node where
  "ex_pnd_empty_corresp =
     Element (tei ''idno'') [(plain ''type'', U ''pnd''), (plain ''corresp'', [])]
       (Some (U ''118529579'')) [] None"

definition ex_pub_outside :: node where
  "ex_pub_outside =
     Element (tei ''TEI'') [] None
       [Element (tei ''teiHeader'') [] None
          [Element (tei ''publicationStmt'') [] None [] None] None] None"

definition ex_pub :: node where
  "ex_pub =
     Element (tei ''TEI'') [] None
       [Element (tei ''fileDesc'') [] None
          [Element (tei ''publicationStmt'') [] None [] None] None] None"

definition ex_pub_biblFull :: node where
  "ex_pub_biblFull =
     Element (tei ''TEI'') [] None
       [Element (tei ''sourceDesc'') [] None
          [Element (tei ''biblFull'') [] None
             [Element (tei ''publicationStmt'') [] None [] None] None] None] None"

definition ex_pub_with_id :: node where
  "ex_pub_with_id =
     Element (tei ''TEI'') [] None
       [Element (tei ''fileDesc'') [] None
          [Element (tei ''publicationStmt'') [] None
             [Element (tei ''idno'') [(plain ''type'', U ''caldracor'')] (Some (U ''other'')) [] None]
             None] None] None"

definition ex_written :: node where
  "ex_written =
     Element (tei ''TEI'') [] None
       [Element (tei ''profileDesc'') [] None [] None,
        Element (tei ''standOff'') [] None
          [Element (tei ''listEvent'') [] None
             [Element (tei ''event'') [(plain ''type'', U ''print''), (plain ''when'', U ''1651'')]
                None [] None,
              Element (tei ''event'')
                [(plain ''type'', U ''written''), (plain ''notBefore'', U ''1630''),
                 (plain ''notAfter'', U ''1640'')] None [] None] None] None] None"

definition ex_print :: node where
  "ex_print =
     Element (tei ''TEI'') [] None
       [Element (tei ''profileDesc'') [] None [] None,
        Element (tei ''standOff'') [] None
          [Element (tei ''listEvent'') [] None
             [Element (tei ''event'') [(plain ''type'', U ''print''), (plain ''when'', U ''1651'')]
                None [] None] None] None] None"

definition ex_creation_present :: node where
  "ex_creation_present =
     Element (tei ''TEI'') [] None
       [Element (tei ''profileDesc'') [] None [Element (tei ''creation'') [] None [] None] None,
        Element (tei ''standOff'') [] None
          [Element (tei ''listEvent'') [] None
             [Element (tei ''event'') [(plain ''type'', U ''print''), (plain ''when'', U ''1651'')]
                None [] None] None] None] None"

definition ex_no_event :: node where
  "ex_no_event =
     Element (tei ''TEI'') [] None [Element (tei ''profileDesc'') [] None [] None] None"

definition ex_no_profile :: node where
  "ex_no_profile = Element (tei ''TEI'') [] None [] None"

definition ex_empty_when :: node where
  "ex_empty_when =
     Element (tei ''TEI'') [] None
       [Element (tei ''profileDesc'') [] None [] None,
        Element (tei ''standOff'') [] None
          [Element (tei ''listEvent'') [] None
             [Element (tei ''event'')
                [(plain ''type'', U ''written''), (plain ''when'', []),
                 (plain ''notBefore'', U ''1630'')] None [] None] None] None] None"

definition ex_profile_desc :: node where
  "ex_profile_desc = Element (tei ''profileDesc'') [] None [] None"

definition ex_event_print :: node where
  "ex_event_print =
     Element (tei ''event'') [(plain ''type'', U ''print''), (plain ''when'', U ''1651'')] None [] None"

definition ex_event_written :: node where
  "ex_event_written =
     Element (tei ''event'')
       [(plain ''type'', U ''written''), (plain ''notBefore'', U ''1630''),
        (plain ''notAfter'', U ''1640'')] None [] None"

definition ex_event_empty_when :: node where
  "ex_event_empty_when =
     Element (tei ''event'')
       [(plain ''type'', U ''written''), (plain ''when'', []), (plain ''notBefore'', U ''1630'')]
       None [] None"


definition ex_own_gnd_group :: node where
  "ex_own_gnd_group =
     Element (tei ''keywords'') [(plain ''scheme'', GND_SCHEME)] None
       [Element (tei ''term'') [] (Some (U ''Comedia'')) [] None] None"

definition ex_textclass_one :: node where
  "ex_textclass_one =
     Element (tei ''profileDesc'') [] None
       [Element (tei ''textClass'') [] None [ex_own_gnd_group] None] None"

definition ex_nested_in_match :: node where
  "ex_nested_in_match =
     Element (tei ''respStmt'') [] None
       [Element (tei ''persName'') [(xml_id, U ''rojas'')] None
          [Element (tei ''respStmt'') [] None
             [Element (tei ''persName'') [] (Some (U ''Bob'')) [] None] None] None] None"

definition ex_match_in_other :: node where
  "ex_match_in_other =
     Element (tei ''respStmt'') [] None
       [Element (tei ''persName'') [] (Some (U ''X''))
          [Element (tei ''respStmt'') [] None
             [Element (tei ''persName'') [(xml_id, U ''rojas'')] None [] None] None] None] None"

definition ex_resp :: node where
  "ex_resp =
     Element (tei ''respStmt'') [] None
       [Element (tei ''persName'') [(xml_id, U ''rojas'')] (Some (U ''Rojas Castro, Antonio'')) []
          None,
        Element (tei ''persName'') [] (Some (U ''Bob'')) [] None] None"

definition ex_entry_rojas :: node where
  "ex_entry_rojas =
     Element (tei ''persName'') [(xml_id, U ''rojas'')] (Some (U ''Rojas Castro, Antonio'')) [] None"

definition ex_entry_bob :: node where
  "ex_entry_bob = Element (tei ''persName'') [] (Some (U ''Bob'')) [] None"



section \<open>Basic facts\<close>


lemma U_eq_iff [simp]: "U s = U t \<longleftrightarrow> s = t"
  by (simp add: U_def inj_map_eq_map inj_of_char)

lemma U_eq_Nil_iff [simp]: "U s = [] \<longleftrightarrow> s = []"
  by (simp add: U_def)

lemma U_append: "U s @ U t = U (s @ t)"
  by (simp add: U_def)

lemma attr_get_set_same: "attr_get (attr_set k v a) k = Some v"
  by (induction a) (auto simp: attr_get_def)

lemma attr_get_set_other: "k' \<noteq> k \<Longrightarrow> attr_get (attr_set k v a) k' = attr_get a k'"
  by (induction a) (auto simp: attr_get_def)

lemma plain_eq_iff [simp]: "plain s = plain t \<longleftrightarrow> s = t"
  by (simp add: plain_def)

lemma tei_eq_iff [simp]: "tei s = tei t \<longleftrightarrow> s = t"
  by (simp add: tei_def)

lemma xml_id_neq_plain [simp]: "xml_id \<noteq> plain s" "plain s \<noteq> xml_id"
  by (simp_all add: xml_id_def plain_def XML_NS_def)

subsection \<open>Children\<close>

lemma has_typed_child_append [simp]:
  "has_typed_child t k v (cs @ ds) \<longleftrightarrow> has_typed_child t k v cs \<or> has_typed_child t k v ds"
  by (simp add: has_typed_child_def list_ex_iff) blast

lemma has_child_append [simp]:
  "has_child t (cs @ ds) \<longleftrightarrow> has_child t cs \<or> has_child t ds"
  by (simp add: has_child_def list_ex_iff) blast

subsection \<open>Paths\<close>

lemma get_at_append:
  "get_at D p = Some n \<Longrightarrow> get_at D (p @ r) = get_at n r"
  by (induction D p rule: get_at.induct) (auto split: if_splits)

lemma get_at_update_at:
  "get_at D p = Some n \<Longrightarrow> get_at (update_at p f D) p = Some (f n)"
  by (induction D p rule: get_at.induct) (auto split: if_splits)

lemma update_at_update_at:
  "update_at p f (update_at p g D) = update_at p (f \<circ> g) D"
  by (induction p g D rule: update_at.induct) auto

lemma update_at_cong_at:
  "get_at D p = Some n \<Longrightarrow> f n = g n \<Longrightarrow> update_at p f D = update_at p g D"
  by (induction D p rule: get_at.induct) (auto split: if_splits)

lemma update_at_id:
  "get_at D p = Some n \<Longrightarrow> f n = n \<Longrightarrow> update_at p f D = D"
  by (induction D p rule: get_at.induct) (auto split: if_splits)

text \<open>The shell of a node: everything but its children.\<close>

lemma elems_from_set:
  "(q, r) \<in> set (elems_from anc k cs) \<longleftrightarrow>
     (\<exists>j p. j < length cs \<and> q = (k + j) # p \<and> (p, r) \<in> set (elems anc (cs ! j)))"
proof (induction cs arbitrary: k)
  case Nil
  show ?case by simp
next
  case (Cons c cs)
  have "(q, r) \<in> set (elems_from anc k (c # cs)) \<longleftrightarrow>
          (\<exists>p. q = k # p \<and> (p, r) \<in> set (elems anc c)) \<or>
          (\<exists>j p. j < length cs \<and> q = (Suc k + j) # p \<and> (p, r) \<in> set (elems anc (cs ! j)))"
    by (auto simp: Cons.IH)
  also have "\<dots> \<longleftrightarrow> (\<exists>j p. j < length (c # cs) \<and> q = (k + j) # p \<and>
                          (p, r) \<in> set (elems anc ((c # cs) ! j)))"
  proof
    assume "(\<exists>p. q = k # p \<and> (p, r) \<in> set (elems anc c)) \<or>
          (\<exists>j p. j < length cs \<and> q = (Suc k + j) # p \<and> (p, r) \<in> set (elems anc (cs ! j)))"
    then show "\<exists>j p. j < length (c # cs) \<and> q = (k + j) # p \<and>
                          (p, r) \<in> set (elems anc ((c # cs) ! j))"
    proof
      assume "\<exists>p. q = k # p \<and> (p, r) \<in> set (elems anc c)"
      then obtain p where "q = k # p" "(p, r) \<in> set (elems anc c)" by blast
      then have "0 < length (c # cs) \<and> q = (k + 0) # p \<and> (p, r) \<in> set (elems anc ((c # cs) ! 0))"
        by simp
      then show ?thesis by blast
    next
      assume "\<exists>j p. j < length cs \<and> q = (Suc k + j) # p \<and> (p, r) \<in> set (elems anc (cs ! j))"
      then obtain j p where "j < length cs" "q = (Suc k + j) # p" "(p, r) \<in> set (elems anc (cs ! j))"
        by blast
      then have "Suc j < length (c # cs) \<and> q = (k + Suc j) # p \<and>
                 (p, r) \<in> set (elems anc ((c # cs) ! Suc j))"
        by simp
      then show ?thesis by blast
    qed
  next
    assume "\<exists>j p. j < length (c # cs) \<and> q = (k + j) # p \<and>
                          (p, r) \<in> set (elems anc ((c # cs) ! j))"
    then obtain j p where j: "j < length (c # cs)" "q = (k + j) # p"
      "(p, r) \<in> set (elems anc ((c # cs) ! j))" by blast
    show "(\<exists>p. q = k # p \<and> (p, r) \<in> set (elems anc c)) \<or>
          (\<exists>j p. j < length cs \<and> q = (Suc k + j) # p \<and> (p, r) \<in> set (elems anc (cs ! j)))"
    proof (cases j)
      case 0
      with j show ?thesis by simp
    next
      case (Suc j')
      with j have "j' < length cs \<and> q = (Suc k + j') # p \<and> (p, r) \<in> set (elems anc (cs ! j'))"
        by simp
      then show ?thesis by blast
    qed
  qed
  finally show ?case .
qed

lemma elems_Element_set:
  "(q, r) \<in> set (elems anc (Element t a x cs y)) \<longleftrightarrow>
     (q = [] \<and> r = (anc, Element t a x cs y)) \<or>
     (\<exists>j p. j < length cs \<and> q = j # p \<and> (p, r) \<in> set (elems (t # anc) (cs ! j)))"
  by (auto simp: elems_from_set)

lemma elems_valid:
  "(p, anc', n) \<in> set (elems anc D) \<Longrightarrow> get_at D p = Some n"
proof (induction D arbitrary: p anc)
  case (Element t a x cs y)
  from Element.prems show ?case
    unfolding elems_Element_set
  proof
    assume "p = [] \<and> (anc', n) = (anc, Element t a x cs y)"
    then show ?thesis by simp
  next
    assume "\<exists>j p'. j < length cs \<and> p = j # p' \<and> (p', anc', n) \<in> set (elems (t # anc) (cs ! j))"
    then obtain j p' where j: "j < length cs" "p = j # p'"
      "(p', anc', n) \<in> set (elems (t # anc) (cs ! j))" by blast
    then have "get_at (cs ! j) p' = Some n"
      using Element.IH [of "cs ! j" p' "t # anc"] by simp
    with j show ?thesis by simp
  qed
next
  case (Misc c y)
  then show ?case by simp
qed

lemma elems_is_Element:
  "(p, anc', n) \<in> set (elems anc D) \<Longrightarrow> \<exists>t a x cs y. n = Element t a x cs y"
proof (induction D arbitrary: p anc)
  case (Element t a x cs y)
  from Element.prems show ?case
    unfolding elems_Element_set
  proof
    assume "p = [] \<and> (anc', n) = (anc, Element t a x cs y)"
    then show ?thesis by simp
  next
    assume "\<exists>j p'. j < length cs \<and> p = j # p' \<and> (p', anc', n) \<in> set (elems (t # anc) (cs ! j))"
    then obtain j p' where j: "j < length cs" "p = j # p'"
      "(p', anc', n) \<in> set (elems (t # anc) (cs ! j))" by blast
    then show ?thesis
      using Element.IH [of "cs ! j" p' "t # anc"] by simp
  qed
next
  case (Misc c y)
  then show ?case by simp
qed

lemma elems_complete:
  "get_at D p = Some (Element t a x cs y) \<Longrightarrow>
   \<exists>anc'. (p, anc', Element t a x cs y) \<in> set (elems anc D)"
proof (induction D p arbitrary: anc rule: get_at.induct)
  case (1 n)
  then show ?case by auto
next
  case (2 t' a' x' cs' y' i p)
  from "2.prems" have i: "i < length cs'" and g: "get_at (cs' ! i) p = Some (Element t a x cs y)"
    by (auto split: if_splits)
  from "2.IH" [OF i g, of "t' # anc"] obtain anc' where
    "(p, anc', Element t a x cs y) \<in> set (elems (t' # anc) (cs' ! i))" by blast
  with i show ?case
    unfolding elems_Element_set by blast
next
  case (3 c y i p)
  then show ?case by simp
qed

subsection \<open>Queries\<close>

lemma map_fst_filter_shift:
  "map fst (filter (\<lambda>(p, anc', n'). Q anc' n') (map (\<lambda>(p, r). (i # p, r)) xs))
   = map ((#) i) (map fst (filter (\<lambda>(p, anc', n'). Q anc' n') xs))"
  by (induction xs) auto

lemma paths_of_elems:
  "paths_of Q anc n = map fst (filter (\<lambda>(p, anc', n'). Q anc' n') (elems anc n))"
  and paths_from_elems:
  "paths_from Q anc i cs = map fst (filter (\<lambda>(p, anc', n'). Q anc' n') (elems_from anc i cs))"
proof (induction Q anc n and Q anc i cs rule: paths_of_paths_from.induct)
  case (4 Q anc i c cs)
  then show ?case by (simp add: map_fst_filter_shift)
qed simp_all

lemma map_fst_xpath: "map fst (xpath Q D) = paths_of Q [] D"
proof -
  have "map fst (map (\<lambda>(p, anc, n). (p, n)) xs) = map fst xs" for xs :: "(path \<times> qname list \<times> node) list"
    by (induction xs) auto
  then show ?thesis by (simp add: xpath_def paths_of_elems)
qed

lemma xpath_valid: "(p, n) \<in> set (xpath Q D) \<Longrightarrow> get_at D p = Some n"
  by (auto simp: xpath_def elems_valid)

lemma xpath_is_Element: "(p, n) \<in> set (xpath Q D) \<Longrightarrow> \<exists>t a x cs y. n = Element t a x cs y"
  by (auto simp: xpath_def dest: elems_is_Element)

lemma xpath_sat: "(p, n) \<in> set (xpath Q D) \<Longrightarrow> \<exists>anc. Q anc n"
  by (auto simp: xpath_def)

lemma paths_from_append:
  "paths_from Q anc k (cs @ ds) = paths_from Q anc k cs @ paths_from Q anc (k + length cs) ds"
  by (induction cs arbitrary: k) simp_all

lemma paths_from_update:
  "i < length cs \<Longrightarrow> paths_of Q anc c' = paths_of Q anc (cs ! i) \<Longrightarrow>
   paths_from Q anc k (cs[i := c']) = paths_from Q anc k cs"
proof (induction cs arbitrary: i k)
  case Nil
  then show ?case by simp
next
  case (Cons c cs)
  then show ?case by (cases i) simp_all
qed

lemma paths_of_update_at:
  assumes "shallow Q" and "\<And>anc n. paths_of Q anc (f n) = paths_of Q anc n"
  shows "paths_of Q anc (update_at q f D) = paths_of Q anc D"
  using assms
proof (induction q f D arbitrary: anc rule: update_at.induct)
  case (1 f n)
  then show ?case by simp
next
  case (2 i p f t a x cs y)
  show ?case
  proof (cases "i < length cs")
    case True
    have sh: "Q anc (Element t a x (cs[i := update_at p f (cs ! i)]) y) = Q anc (Element t a x cs y)"
      using "2.prems"(1) unfolding shallow_def by blast
    have "paths_from Q (t # anc) 0 (cs[i := update_at p f (cs ! i)]) = paths_from Q (t # anc) 0 cs"
      using True "2.IH" [OF True "2.prems"] by (intro paths_from_update) simp_all
    with True sh show ?thesis by simp
  next
    case False
    then show ?thesis by simp
  qed
next
  case (3 i p f c y)
  show ?case by simp
qed

lemma shallow_is_pub_stmt: "shallow is_pub_stmt"
  by (simp add: shallow_def is_pub_stmt_def)

lemma shallow_is_profile_desc: "shallow is_profile_desc"
  by (simp add: shallow_def is_profile_desc_def)

lemma paths_of_set_text:
  assumes "shallow Q"
  shows "paths_of Q anc (set_text s n) = paths_of Q anc n"
proof (cases n)
  case (Element t a x cs y)
  have "Q anc (Element t a (Some s) cs y) = Q anc (Element t a x cs y)"
    using assms unfolding shallow_def by blast
  with Element show ?thesis by simp
next
  case (Misc c y)
  then show ?thesis by simp
qed

lemma paths_from_set_first_publisher:
  "shallow Q \<Longrightarrow> set_first_publisher cs = Some cs' \<Longrightarrow>
   paths_from Q anc k cs' = paths_from Q anc k cs"
proof (induction cs arbitrary: k cs')
  case Nil
  then show ?case by simp
next
  case (Cons c cs)
  then show ?case
    by (auto simp: paths_of_set_text split: if_splits)
qed

section \<open>The loops over a query result, as recursions over the tree\<close>

text \<open>
  A loop whose body keeps the tag, text and tail of its node, and its children as the
  first of the children it leaves, visits the root if the query selects it and then runs
  inside each child on its own.
\<close>

lemma paths_from_cong:
  "(\<And>c. c \<in> set cs \<Longrightarrow> paths_of Q anc c = paths_of Q' anc' c) \<Longrightarrow>
   paths_from Q anc i cs = paths_from Q' anc' i cs"
  by (induction cs arbitrary: i) auto

lemma paths_of_no_context:
  "paths_of (\<lambda>anc. W) anc n = paths_of (\<lambda>anc. W) anc' n"
proof (induction n arbitrary: anc anc')
  case (Element t a x cs y)
  have "paths_from (\<lambda>anc. W) (t # anc) 0 cs = paths_from (\<lambda>anc. W) (t # anc') 0 cs"
    by (rule paths_from_cong) (rule Element.IH)
  then show ?case by simp
next
  case (Misc c y)
  show ?case by simp
qed

lemma foldl_update_child:
  "i < length cs \<Longrightarrow>
   foldl (\<lambda>t p. update_at p f t) (Element t a x cs y) (map ((#) i) ps) =
     Element t a x (cs[i := foldl (\<lambda>t p. update_at p f t) (cs ! i) ps]) y"
proof (induction ps arbitrary: cs)
  case Nil
  then show ?case by simp
next
  case (Cons p ps)
  from Cons.prems have "i < length (cs[i := update_at p f (cs ! i)])" by simp
  from Cons.IH [OF this] Cons.prems show ?case by simp
qed

lemma foldl_update_children:
  "foldl (\<lambda>t p. update_at p f t) (Element t a x (pre @ cs @ post) y)
     (paths_from Q anc (length pre) cs) =
   Element t a x
     (pre @ map (\<lambda>c. foldl (\<lambda>t p. update_at p f t) c (paths_of Q anc c)) cs @ post) y"
proof (induction cs arbitrary: pre)
  case Nil
  show ?case by simp
next
  case (Cons c cs)
  let ?c' = "foldl (\<lambda>t p. update_at p f t) c (paths_of Q anc c)"
  have "foldl (\<lambda>t p. update_at p f t) (Element t a x (pre @ (c # cs) @ post) y)
          (map ((#) (length pre)) (paths_of Q anc c)) =
        Element t a x ((pre @ (c # cs) @ post)[length pre := ?c']) y"
    using foldl_update_child [of "length pre" "pre @ (c # cs) @ post" f t a x y "paths_of Q anc c"]
    by (simp add: nth_append)
  also have "(pre @ (c # cs) @ post)[length pre := ?c'] = (pre @ [?c']) @ cs @ post"
    by (simp add: list_update_append)
  finally have 1: "foldl (\<lambda>t p. update_at p f t) (Element t a x (pre @ (c # cs) @ post) y)
          (map ((#) (length pre)) (paths_of Q anc c)) =
        Element t a x ((pre @ [?c']) @ cs @ post) y" .
  have "foldl (\<lambda>t p. update_at p f t) (Element t a x (pre @ (c # cs) @ post) y)
          (paths_from Q anc (length pre) (c # cs)) =
        foldl (\<lambda>t p. update_at p f t) (Element t a x ((pre @ [?c']) @ cs @ post) y)
          (paths_from Q anc (length (pre @ [?c'])) cs)"
    using 1 by simp
  also have "\<dots> = Element t a x ((pre @ [?c']) @
       map (\<lambda>c. foldl (\<lambda>t p. update_at p f t) c (paths_of Q anc c)) cs @ post) y"
    by (rule Cons.IH)
  finally show ?case by simp
qed

lemma for_each_Element:
  assumes "step (Element t a x cs y) = Element t a' x (cs @ new) y"
  shows "for_each W step (Element t a x cs y) =
           (if W (Element t a x cs y)
            then Element t a' x (map (for_each W step) cs @ new) y
            else Element t a x (map (for_each W step) cs) y)"
proof -
  have fe: "for_each W step c = foldl (\<lambda>t p. update_at p step t) c (paths_of (\<lambda>anc. W) [t] c)" for c
    unfolding for_each_def map_fst_xpath by (simp add: paths_of_no_context [of W "[]" c "[t]"])
  have ch: "foldl (\<lambda>t p. update_at p step t) (Element t b x (cs @ post) y)
              (paths_from (\<lambda>anc. W) [t] 0 cs) =
            Element t b x (map (for_each W step) cs @ post) y" for b post
    using foldl_update_children [of step t b x "[]" cs post y "\<lambda>anc. W" "[t]"]
    by (simp add: fe)
  have top: "for_each W step (Element t a x cs y) =
      foldl (\<lambda>t p. update_at p step t) (Element t a x cs y)
        ((if W (Element t a x cs y) then [ [] ] else []) @ paths_from (\<lambda>anc. W) [t] 0 cs)"
    by (simp add: for_each_def map_fst_xpath)
  show ?thesis
  proof (cases "W (Element t a x cs y)")
    case True
    then show ?thesis
      unfolding top using ch [of a' new] assms by simp
  next
    case False
    then show ?thesis
      unfolding top using ch [of a "[]"] by simp
  qed
qed

lemma for_each_Misc: "for_each W step (Misc c y) = Misc c y"
  by (simp add: for_each_def xpath_def)

lemma is_typed_idno:
  "is_typed_elem (tei ''idno'') (plain ''type'') ty (Element t a x cs y) = is_idno ty t a"
  by (simp add: is_idno_def)

lemma add_wikidata_corresp_simps [simp]:
  "add_wikidata_corresp (Element t a x cs y) =
     Element t (if is_idno (U ''wikidata'') t a then wikidata_attrib a x else a) x
       (map add_wikidata_corresp cs) y"
  "add_wikidata_corresp (Misc c y) = Misc c y"
proof -
  let ?W = "is_typed_elem (tei ''idno'') (plain ''type'') (U ''wikidata'')"
  have eq: "add_wikidata_corresp = for_each ?W wikidata_body"
    by (rule ext) (simp add: add_wikidata_corresp_def)
  show "add_wikidata_corresp (Element t a x cs y) =
     Element t (if is_idno (U ''wikidata'') t a then wikidata_attrib a x else a) x
       (map add_wikidata_corresp cs) y"
    unfolding eq
    using for_each_Element [of wikidata_body t a x cs y "wikidata_attrib a x" "[]" ?W]
    by (simp add: is_idno_def)
  show "add_wikidata_corresp (Misc c y) = Misc c y"
    unfolding eq by (rule for_each_Misc)
qed

lemma convert_pnd_to_gnd_simps [simp]:
  "convert_pnd_to_gnd (Element t a x cs y) =
     Element t (if is_idno (U ''pnd'') t a then pnd_attrib a x else a) x
       (map convert_pnd_to_gnd cs) y"
  "convert_pnd_to_gnd (Misc c y) = Misc c y"
proof -
  let ?W = "is_typed_elem (tei ''idno'') (plain ''type'') (U ''pnd'')"
  have eq: "convert_pnd_to_gnd = for_each ?W pnd_body"
    by (rule ext) (simp add: convert_pnd_to_gnd_def)
  show "convert_pnd_to_gnd (Element t a x cs y) =
     Element t (if is_idno (U ''pnd'') t a then pnd_attrib a x else a) x
       (map convert_pnd_to_gnd cs) y"
    unfolding eq
    using for_each_Element [of pnd_body t a x cs y "pnd_attrib a x" "[]" ?W]
    by (simp add: is_idno_def)
  show "convert_pnd_to_gnd (Misc c y) = Misc c y"
    unfolding eq by (rule for_each_Misc)
qed

lemma ensure_langusage_spanish_simps [simp]:
  "ensure_langusage_spanish (Element t a x cs y) =
     Element t a x
       (if t = tei ''profileDesc'' \<and> \<not> has_child (tei ''langUsage'') cs
        then map ensure_langusage_spanish cs @ [new_langUsage]
        else map ensure_langusage_spanish cs) y"
  "ensure_langusage_spanish (Misc c y) = Misc c y"
proof -
  let ?W = "is_elem (tei ''profileDesc'')"
  have eq: "ensure_langusage_spanish = for_each ?W langusage_body"
    by (rule ext) (simp add: ensure_langusage_spanish_def)
  show "ensure_langusage_spanish (Element t a x cs y) =
     Element t a x
       (if t = tei ''profileDesc'' \<and> \<not> has_child (tei ''langUsage'') cs
        then map ensure_langusage_spanish cs @ [new_langUsage]
        else map ensure_langusage_spanish cs) y"
    unfolding eq
    using for_each_Element [of langusage_body t a x cs y a
        "if has_child (tei ''langUsage'') cs then [] else [new_langUsage]" ?W]
    by simp
  show "ensure_langusage_spanish (Misc c y) = Misc c y"
    unfolding eq by (rule for_each_Misc)
qed

lemma schemes_distinct [simp]:
  "BK_SCHEME \<noteq> GND_SCHEME" "GND_SCHEME \<noteq> BK_SCHEME"
  "BK_SCHEME \<noteq> TG_SCHEME" "TG_SCHEME \<noteq> BK_SCHEME"
  "GND_SCHEME \<noteq> TG_SCHEME" "TG_SCHEME \<noteq> GND_SCHEME"
  by (simp_all add: BK_SCHEME_def GND_SCHEME_def TG_SCHEME_def)

lemma has_keywords_append [simp]:
  "has_keywords s (cs @ ds) \<longleftrightarrow> has_keywords s cs \<or> has_keywords s ds"
  by (simp add: has_keywords_def)

lemma has_keywords_groups [simp]:
  "has_keywords s [kw_bk] \<longleftrightarrow> s = BK_SCHEME"
  "has_keywords s [kw_gnd] \<longleftrightarrow> s = GND_SCHEME"
  "has_keywords s [kw_tg] \<longleftrightarrow> s = TG_SCHEME"
  by (auto simp: has_keywords_def has_typed_child_def kw_bk_def kw_gnd_def kw_tg_def attr_get_def)

lemma textclass_children_missing: "textclass_children cs = cs @ missing_groups cs"
  by (simp add: textclass_children_def ensure_group_def missing_groups_def)

lemma ensure_textclass_keywords_simps [simp]:
  "ensure_textclass_keywords (Element t a x cs y) =
     Element t a x
       (if t = tei ''textClass'' then map ensure_textclass_keywords cs @ missing_groups cs
        else map ensure_textclass_keywords cs) y"
  "ensure_textclass_keywords (Misc c y) = Misc c y"
proof -
  let ?W = "is_elem (tei ''textClass'')"
  have eq: "ensure_textclass_keywords = for_each ?W keywords_body"
    by (rule ext) (simp add: ensure_textclass_keywords_def)
  show "ensure_textclass_keywords (Element t a x cs y) =
     Element t a x
       (if t = tei ''textClass'' then map ensure_textclass_keywords cs @ missing_groups cs
        else map ensure_textclass_keywords cs) y"
    unfolding eq
    using for_each_Element [of keywords_body t a x cs y a "missing_groups cs" ?W]
    by (simp add: textclass_children_missing)
  show "ensure_textclass_keywords (Misc c y) = Misc c y"
    unfolding eq by (rule for_each_Misc)
qed

subsection \<open>The loop of the name rule\<close>

lemma scanned_entry:
  "is_persname_entry anc (Element t a x cs y) \<longleftrightarrow> scanned (parent_tag anc) t"
  by (cases anc) (auto simp: is_persname_entry_def scanned_def under_def)

lemma fold_detached:
  "(\<And>p. p \<in> set ps \<Longrightarrow> list_ex (\<lambda>q. strict_prefix q p) rb) \<Longrightarrow>
   foldl persname_visit (T, rb) ps = (T, rb)"
  by (induction ps) (simp_all add: persname_visit_def)

lemma prefix_append_cases: "prefix q (pre @ r) \<Longrightarrow> prefix q pre \<or> prefix pre q"
  by (metis prefix_append prefix_def)

lemma get_at_update_below:
  "get_at T pre = Some n \<Longrightarrow> get_at (update_at (pre @ r) f T) pre = Some (update_at r f n)"
  by (induction T pre rule: get_at.induct) (auto split: if_splits)

lemma update_at_absorb:
  "update_at pre (\<lambda>_. X) (update_at (pre @ r) g T) = update_at pre (\<lambda>_. X) T"
  by (induction pre "\<lambda>_::node. X" T rule: update_at.induct) auto

lemma update_at_same: "get_at T pre = Some n \<Longrightarrow> update_at pre (\<lambda>_. n) T = T"
  by (rule update_at_id) simp_all


lemma visit_children:
  assumes IH: "\<And>c T pre rb anc. c \<in> set cs \<Longrightarrow> get_at T pre = Some c \<Longrightarrow>
            (\<forall>q\<in>set rb. \<not> prefix q pre \<and> \<not> prefix pre q) \<Longrightarrow>
            \<exists>rb'. foldl persname_visit (T, rb) (map ((@) pre) (paths_of is_persname_entry anc c)) =
                    (update_at pre (\<lambda>_. normalize_persname_in (parent_tag anc) c) T, rb') \<and>
                  (\<forall>q\<in>set rb'. q \<in> set rb \<or> prefix pre q)"
    and g: "get_at T pre = Some (Element t a x (dn @ cs) y)"
    and inv: "\<forall>q\<in>set rb. (\<not> prefix q pre \<and> \<not> prefix pre q) \<or> (\<exists>j<length dn. prefix (pre @ [j]) q)"
  shows "\<exists>rb'. foldl persname_visit (T, rb)
                  (map ((@) pre) (paths_from is_persname_entry (t # anc) (length dn) cs)) =
                (update_at pre (\<lambda>_. Element t a x (dn @ map (normalize_persname_in (Some t)) cs) y) T,
                 rb') \<and>
              (\<forall>q\<in>set rb'. q \<in> set rb \<or> prefix pre q)"
  using assms
proof (induction cs arbitrary: dn T rb)
  case Nil
  from update_at_same [OF Nil.prems(2)] show ?case by auto
next
  case (Cons c cs)
  let ?k = "length dn"
  let ?c' = "normalize_persname_in (Some t) c"
  have gc: "get_at T (pre @ [?k]) = Some c"
    using get_at_append [OF Cons.prems(2), of "[?k]"] by simp
  have inv_c: "\<forall>q\<in>set rb. \<not> prefix q (pre @ [?k]) \<and> \<not> prefix (pre @ [?k]) q"
  proof
    fix q
    assume q: "q \<in> set rb"
    with Cons.prems(3) consider "\<not> prefix q pre \<and> \<not> prefix pre q"
      | j where "j < ?k" "prefix (pre @ [j]) q" by blast
    then show "\<not> prefix q (pre @ [?k]) \<and> \<not> prefix (pre @ [?k]) q"
    proof cases
      case 1
      then show ?thesis
        by (metis prefix_append_cases append_prefixD)
    next
      case 2
      then obtain r where r: "q = pre @ j # r" by (auto simp: prefix_def)
      with 2(1) show ?thesis by (auto simp: prefix_def)
    qed
  qed
  have cin: "c \<in> set (c # cs)" by simp
  from Cons.prems(1) [of c T "pre @ [?k]" rb "t # anc", OF cin gc inv_c, unfolded parent_tag.simps]
  obtain rb1 where
    f1: "foldl persname_visit (T, rb) (map ((@) (pre @ [?k])) (paths_of is_persname_entry (t # anc) c)) =
           (update_at (pre @ [?k]) (\<lambda>_. ?c') T, rb1)"
    and s1: "\<forall>q\<in>set rb1. q \<in> set rb \<or> prefix (pre @ [?k]) q"
    by blast
  let ?T1 = "update_at (pre @ [?k]) (\<lambda>_. ?c') T"
  have g1: "get_at ?T1 pre = Some (Element t a x ((dn @ [?c']) @ cs) y)"
    using get_at_update_below [OF Cons.prems(2), of "[?k]" "\<lambda>_. ?c'"] by simp
  have inv1: "\<forall>q\<in>set rb1. (\<not> prefix q pre \<and> \<not> prefix pre q) \<or>
                 (\<exists>j<length (dn @ [?c']). prefix (pre @ [j]) q)"
  proof
    fix q
    assume "q \<in> set rb1"
    with s1 consider "q \<in> set rb" | "prefix (pre @ [?k]) q" by blast
    then show "(\<not> prefix q pre \<and> \<not> prefix pre q) \<or>
                 (\<exists>j<length (dn @ [?c']). prefix (pre @ [j]) q)"
    proof cases
      case 1
      with Cons.prems(3) show ?thesis by (auto simp: less_Suc_eq)
    next
      case 2
      then show ?thesis by auto
    qed
  qed
  have IH': "\<And>c T pre rb anc. c \<in> set cs \<Longrightarrow> get_at T pre = Some c \<Longrightarrow>
            (\<forall>q\<in>set rb. \<not> prefix q pre \<and> \<not> prefix pre q) \<Longrightarrow>
            \<exists>rb'. foldl persname_visit (T, rb) (map ((@) pre) (paths_of is_persname_entry anc c)) =
                    (update_at pre (\<lambda>_. normalize_persname_in (parent_tag anc) c) T, rb') \<and>
                  (\<forall>q\<in>set rb'. q \<in> set rb \<or> prefix pre q)"
    using Cons.prems(1) by simp
  from Cons.IH [OF IH' g1 inv1] obtain rb2 where
    f2: "foldl persname_visit (?T1, rb1)
           (map ((@) pre) (paths_from is_persname_entry (t # anc) (length (dn @ [?c'])) cs)) =
         (update_at pre (\<lambda>_. Element t a x ((dn @ [?c']) @ map (normalize_persname_in (Some t)) cs) y) ?T1,
          rb2)"
    and s2: "\<forall>q\<in>set rb2. q \<in> set rb1 \<or> prefix pre q"
    by blast
  have s3: "\<forall>q\<in>set rb2. q \<in> set rb \<or> prefix pre q"
  proof
    fix q
    assume "q \<in> set rb2"
    with s2 s1 show "q \<in> set rb \<or> prefix pre q"
      by (auto dest: append_prefixD)
  qed
  have shift: "map ((@) pre) (map ((#) ?k) ps) = map ((@) (pre @ [?k])) ps" for ps
    by simp
  have "foldl persname_visit (T, rb)
          (map ((@) pre) (paths_from is_persname_entry (t # anc) ?k (c # cs))) =
        foldl persname_visit (?T1, rb1)
          (map ((@) pre) (paths_from is_persname_entry (t # anc) (Suc ?k) cs))"
    using f1 by (simp add: shift del: map_map)
  also have "\<dots> = (update_at pre (\<lambda>_. Element t a x ((dn @ [?c']) @ map (normalize_persname_in (Some t)) cs) y) ?T1, rb2)"
    using f2 by simp
  also have "update_at pre (\<lambda>_. Element t a x ((dn @ [?c']) @ map (normalize_persname_in (Some t)) cs) y) ?T1 =
             update_at pre (\<lambda>_. Element t a x (dn @ map (normalize_persname_in (Some t)) (c # cs)) y) T"
    by (simp add: update_at_absorb)
  finally show ?case using s3 by blast
qed


lemma visit_subtree:
  assumes "get_at T pre = Some n"
    and "\<forall>q\<in>set rb. \<not> prefix q pre \<and> \<not> prefix pre q"
  shows "\<exists>rb'. foldl persname_visit (T, rb) (map ((@) pre) (paths_of is_persname_entry anc n)) =
                (update_at pre (\<lambda>_. normalize_persname_in (parent_tag anc) n) T, rb') \<and>
              (\<forall>q\<in>set rb'. q \<in> set rb \<or> prefix pre q)"
  using assms
proof (induction n arbitrary: T pre rb anc)
  case (Element t a x cs y)
  let ?n = "Element t a x cs y"
  have attached: "\<not> list_ex (\<lambda>q. strict_prefix q pre) rb"
    using Element.prems(2) by (auto simp: list_ex_iff strict_prefix_def)
  have IH: "\<And>c T pre rb anc. c \<in> set cs \<Longrightarrow> get_at T pre = Some c \<Longrightarrow>
            (\<forall>q\<in>set rb. \<not> prefix q pre \<and> \<not> prefix pre q) \<Longrightarrow>
            \<exists>rb'. foldl persname_visit (T, rb) (map ((@) pre) (paths_of is_persname_entry anc c)) =
                    (update_at pre (\<lambda>_. normalize_persname_in (parent_tag anc) c) T, rb') \<and>
                  (\<forall>q\<in>set rb'. q \<in> set rb \<or> prefix pre q)"
    using Element.IH by blast
  show ?case
  proof (cases "scanned (parent_tag anc) t \<and> persname_matches a x cs")
    case True
    have first: "persname_visit (T, rb) pre = (update_at pre persname_body T, pre # rb)"
      using attached Element.prems(1) True by (simp add: persname_visit_def)
    have rest: "foldl persname_visit (update_at pre persname_body T, pre # rb)
                  (map ((@) pre) (paths_from is_persname_entry (t # anc) 0 cs)) =
                (update_at pre persname_body T, pre # rb)"
    proof (rule fold_detached)
      fix p
      assume "p \<in> set (map ((@) pre) (paths_from is_persname_entry (t # anc) 0 cs))"
      then obtain r where r: "p = pre @ r" "r \<in> set (paths_from is_persname_entry (t # anc) 0 cs)"
        by auto
      from r(2) have "r \<noteq> []"
        by (auto simp: paths_from_elems elems_from_set)
      with r(1) have "strict_prefix pre p" by (simp add: strict_prefix_def)
      then show "list_ex (\<lambda>q. strict_prefix q p) (pre # rb)" by simp
    qed
    have "update_at pre persname_body T = update_at pre (\<lambda>_. rojas_entry t) T"
      using True by (intro update_at_cong_at [OF Element.prems(1)]) simp
    with first rest True have
      "foldl persname_visit (T, rb) (map ((@) pre) (paths_of is_persname_entry anc ?n)) =
         (update_at pre (\<lambda>_. normalize_persname_in (parent_tag anc) ?n) T, pre # rb)"
      by (simp add: scanned_entry)
    then show ?thesis by auto
  next
    case False
    have root: "foldl persname_visit (T, rb) (map ((@) pre) (paths_of is_persname_entry anc ?n)) =
                foldl persname_visit (T, rb)
                  (map ((@) pre) (paths_from is_persname_entry (t # anc) 0 cs))"
    proof (cases "scanned (parent_tag anc) t")
      case True
      with False have "persname_visit (T, rb) pre = (T, rb)"
        using attached Element.prems(1) by (simp add: persname_visit_def)
      with True show ?thesis by (simp add: scanned_entry)
    next
      case False
      then show ?thesis by (simp add: scanned_entry)
    qed
    have g: "get_at T pre = Some (Element t a x ([] @ cs) y)"
      using Element.prems(1) by simp
    have inv: "\<forall>q\<in>set rb. (\<not> prefix q pre \<and> \<not> prefix pre q) \<or>
                 (\<exists>j<length ([]::node list). prefix (pre @ [j]) q)"
      using Element.prems(2) by simp
    from visit_children [OF IH g inv, of anc] obtain rb' where
      "foldl persname_visit (T, rb)
         (map ((@) pre) (paths_from is_persname_entry (t # anc) (length ([]::node list)) cs)) =
       (update_at pre (\<lambda>_. Element t a x ([] @ map (normalize_persname_in (Some t)) cs) y) T, rb')"
      and "\<forall>q\<in>set rb'. q \<in> set rb \<or> prefix pre q"
      by blast
    with root False show ?thesis by auto
  qed
next
  case (Misc c y)
  from update_at_same [OF Misc.prems(1)] show ?case by simp
qed

lemma normalize_persname_rojas_rec: "normalize_persname_rojas D = normalize_persname_in None D"
proof -
  have "get_at D [] = Some D" by simp
  from visit_subtree [OF this, of "[]" "[]"] obtain rb' where
    "foldl persname_visit (D, []) (map ((@) []) (paths_of is_persname_entry [] D)) =
       (update_at [] (\<lambda>_. normalize_persname_in (parent_tag []) D) D, rb')"
    by auto
  moreover have "map ((@) []) (paths_of is_persname_entry [] D) = paths_of is_persname_entry [] D"
    by (simp add: map_idI)
  ultimately show ?thesis
    by (simp add: normalize_persname_rojas_def persname_entries_def map_fst_xpath)
qed

section \<open>The identifier rules: Wikidata and GND\<close>

lemma get_at_add_wikidata_corresp:
  "get_at D p = Some n \<Longrightarrow> get_at (add_wikidata_corresp D) p = Some (add_wikidata_corresp n)"
  by (induction D p rule: get_at.induct) (auto split: if_splits)

lemma get_at_convert_pnd_to_gnd:
  "get_at D p = Some n \<Longrightarrow> get_at (convert_pnd_to_gnd D) p = Some (convert_pnd_to_gnd n)"
  by (induction D p rule: get_at.induct) (auto split: if_splits)

lemma truthy_iff: "truthy v \<longleftrightarrow> v \<noteq> None \<and> v \<noteq> Some []"
  by (cases v) simp_all

lemma strip_digits: "strip (U ''118529579'') = U ''118529579''"
  by (simp add: strip_def U_def py_isspace_def)

lemma strip_Q42: "strip (U ''Q42'') = U ''Q42''"
  by (simp add: strip_def U_def py_isspace_def)

text \<open>
  Claim C6, as amended. Take any \<open>idno\<close> element of type \<open>wikidata\<close>, anywhere in a
  document. After \<open>add_wikidata_corresp\<close> the element is at the same place with the same tag,
  text and tail. When its trimmed text is not empty and its \<open>corresp\<close> attribute is absent
  or empty, \<open>corresp\<close> is set to the Wikidata address followed by the trimmed text; in every
  other case (trimmed text empty, or a non-empty \<open>corresp\<close> present) its attributes are
  unchanged.
\<close>

theorem wikidata_rule:
  assumes "get_at D p = Some (Element t a x cs y)"
    and "is_idno (U ''wikidata'') t a"
  shows "\<exists>a'. get_at (add_wikidata_corresp D) p =
                 Some (Element t a' x (map add_wikidata_corresp cs) y) \<and>
     (if strip (or_empty x) \<noteq> [] \<and>
         (attr_get a (plain ''corresp'') = None \<or> attr_get a (plain ''corresp'') = Some [])
      then a' = attr_set (plain ''corresp'') (WIKIDATA_URL @ strip (or_empty x)) a \<and>
           attr_get a' (plain ''corresp'') = Some (WIKIDATA_URL @ strip (or_empty x))
      else a' = a)"
  using get_at_add_wikidata_corresp [OF assms(1)] assms(2)
  by (auto simp: wikidata_attrib_def Let_def truthy_iff attr_get_set_same)

theorem wikidata_rule_witness:
  "get_at ex_wikidata [] =
     Some (Element (tei ''idno'') [(plain ''type'', U ''wikidata'')] (Some (U ''Q42'')) [] None) \<and>
   is_idno (U ''wikidata'') (tei ''idno'') [(plain ''type'', U ''wikidata'')] \<and>
   get_at (add_wikidata_corresp ex_wikidata) [] =
     Some (Element (tei ''idno'')
             [(plain ''type'', U ''wikidata''),
              (plain ''corresp'', U ''https://www.wikidata.org/wiki/Q42'')]
             (Some (U ''Q42'')) [] None)"
proof -
  have h1: "get_at ex_wikidata [] =
     Some (Element (tei ''idno'') [(plain ''type'', U ''wikidata'')] (Some (U ''Q42'')) [] None)"
    by (simp add: ex_wikidata_def)
  have h2: "is_idno (U ''wikidata'') (tei ''idno'') [(plain ''type'', U ''wikidata'')]"
    by (simp add: is_idno_def attr_get_def)
  show ?thesis
    using wikidata_rule [OF h1 h2] h1 h2
    by (simp add: attr_get_def  strip_Q42 WIKIDATA_URL_def U_append)
qed

text \<open>
  The claim as stated fails where \<open>corresp\<close> is present with the empty string as value:
  \<open>not idno.get("corresp")\<close> holds for the empty string, so the attribute is overwritten.
\<close>

theorem wikidata_overwrites_empty_corresp:
  "attr_get [(plain ''type'', U ''wikidata''), (plain ''corresp'', [])] (plain ''corresp'') = Some [] \<and>
   add_wikidata_corresp ex_wikidata_empty_corresp =
     Element (tei ''idno'')
       [(plain ''type'', U ''wikidata''),
        (plain ''corresp'', U ''https://www.wikidata.org/wiki/Q42'')]
       (Some (U ''Q42'')) [] None"
  by (simp add: ex_wikidata_empty_corresp_def is_idno_def attr_get_def wikidata_attrib_def
       strip_Q42 WIKIDATA_URL_def U_append)

text \<open>
  Claim C5, as amended. Take any \<open>idno\<close> element of type \<open>pnd\<close>, anywhere in a document.
  After \<open>convert_pnd_to_gnd\<close> the element is at the same place with the same tag, text and
  tail, and its \<open>type\<close> is \<open>gnd\<close>. When its trimmed text is not empty and its \<open>corresp\<close>
  attribute is absent or empty, \<open>corresp\<close> is set to the GND address followed by the trimmed
  text; in every other case nothing but \<open>type\<close> is changed.
\<close>

theorem pnd_rule:
  assumes "get_at D p = Some (Element t a x cs y)"
    and "is_idno (U ''pnd'') t a"
  shows "\<exists>a'. get_at (convert_pnd_to_gnd D) p =
                 Some (Element t a' x (map convert_pnd_to_gnd cs) y) \<and>
     attr_get a' (plain ''type'') = Some (U ''gnd'') \<and>
     (if strip (or_empty x) \<noteq> [] \<and>
         (attr_get a (plain ''corresp'') = None \<or> attr_get a (plain ''corresp'') = Some [])
      then a' = attr_set (plain ''corresp'') (GND_URL @ strip (or_empty x))
                  (attr_set (plain ''type'') (U ''gnd'') a) \<and>
           attr_get a' (plain ''corresp'') = Some (GND_URL @ strip (or_empty x))
      else a' = attr_set (plain ''type'') (U ''gnd'') a)"
  using get_at_convert_pnd_to_gnd [OF assms(1)] assms(2)
  by (auto simp: pnd_attrib_def Let_def truthy_iff attr_get_set_same attr_get_set_other
       )

theorem pnd_rule_witness:
  "get_at ex_pnd [] =
     Some (Element (tei ''idno'') [(plain ''type'', U ''pnd'')] (Some (U ''118529579'')) [] None) \<and>
   is_idno (U ''pnd'') (tei ''idno'') [(plain ''type'', U ''pnd'')] \<and>
   get_at (convert_pnd_to_gnd ex_pnd) [] =
     Some (Element (tei ''idno'')
             [(plain ''type'', U ''gnd''),
              (plain ''corresp'', U ''https://d-nb.info/gnd/118529579'')]
             (Some (U ''118529579'')) [] None)"
proof -
  have h1: "get_at ex_pnd [] =
     Some (Element (tei ''idno'') [(plain ''type'', U ''pnd'')] (Some (U ''118529579'')) [] None)"
    by (simp add: ex_pnd_def)
  have h2: "is_idno (U ''pnd'') (tei ''idno'') [(plain ''type'', U ''pnd'')]"
    by (simp add: is_idno_def attr_get_def)
  show ?thesis
    using pnd_rule [OF h1 h2] h1 h2
    by (simp add: attr_get_def  strip_digits GND_URL_def U_append)
qed

text \<open>
  The claim as stated fails where \<open>corresp\<close> is present with the empty string as value: the
  attribute is not absent, and it is overwritten all the same.
\<close>

theorem pnd_overwrites_empty_corresp:
  "attr_get [(plain ''type'', U ''pnd''), (plain ''corresp'', [])] (plain ''corresp'') = Some [] \<and>
   convert_pnd_to_gnd ex_pnd_empty_corresp =
     Element (tei ''idno'')
       [(plain ''type'', U ''gnd''),
        (plain ''corresp'', U ''https://d-nb.info/gnd/118529579'')]
       (Some (U ''118529579'')) [] None"
  by (simp add: ex_pnd_empty_corresp_def is_idno_def attr_get_def pnd_attrib_def
       strip_digits GND_URL_def U_append)

section \<open>The classification-keywords rule\<close>

lemma is_typed_elem_keywords [simp]:
  "is_typed_elem t k v (ensure_textclass_keywords n) = is_typed_elem t k v n"
  by (cases n) simp_all

lemma has_keywords_map_keywords [simp]:
  "has_keywords s (map ensure_textclass_keywords cs) = has_keywords s cs"
  by (simp add: has_keywords_def has_typed_child_def list_ex_iff)

lemma missing_groups_map_keywords [simp]:
  "missing_groups (map ensure_textclass_keywords cs) = missing_groups cs"
  by (simp add: missing_groups_def)


lemma keywords_fixed_groups [simp]:
  "ensure_textclass_keywords kw_bk = kw_bk"
  "ensure_textclass_keywords kw_gnd = kw_gnd"
  "ensure_textclass_keywords kw_tg = kw_tg"
  by (simp_all add: kw_bk_def kw_gnd_def kw_tg_def)


lemma missing_groups_twice [simp]: "missing_groups (cs @ missing_groups cs) = []"
  by (simp add: missing_groups_def)

lemma missing_groups_after [simp]:
  "missing_groups (map ensure_textclass_keywords cs @ missing_groups cs) = []"
  by (simp add: missing_groups_def)

lemma map_keywords_missing [simp]:
  "map ensure_textclass_keywords (missing_groups cs) = missing_groups cs"
  by (simp add: missing_groups_def)

lemma ensure_textclass_keywords_idem:
  "ensure_textclass_keywords (ensure_textclass_keywords n) = ensure_textclass_keywords n"
proof (induction n)
  case (Element t a x cs y)
  then have "map (ensure_textclass_keywords \<circ> ensure_textclass_keywords) cs =
             map ensure_textclass_keywords cs"
    by simp
  then show ?case
    by simp
next
  case (Misc c y)
  show ?case by simp
qed





section \<open>The publisher and corpus-identifier rules\<close>

lemma set_first_publisher_None: "set_first_publisher cs = None \<longleftrightarrow> \<not> has_child (tei ''publisher'') cs"
  by (induction cs) (auto simp: has_child_def)

lemma set_first_publisher_Some:
  "set_first_publisher cs = Some cs' \<Longrightarrow>
   \<exists>i<length cs. is_elem (tei ''publisher'') (cs ! i) \<and> (\<forall>j<i. \<not> is_elem (tei ''publisher'') (cs ! j)) \<and>
      cs' = cs[i := set_text PUBLISHER_TEXT (cs ! i)]"
proof (induction cs arbitrary: cs')
  case Nil
  then show ?case by simp
next
  case (Cons c cs)
  show ?case
  proof (cases "is_elem (tei ''publisher'') c")
    case True
    with Cons.prems have "cs' = (c # cs)[0 := set_text PUBLISHER_TEXT ((c # cs) ! 0)]" by simp
    with True have "0 < length (c # cs) \<and> is_elem (tei ''publisher'') ((c # cs) ! 0) \<and>
        (\<forall>j<0. \<not> is_elem (tei ''publisher'') ((c # cs) ! j)) \<and>
        cs' = (c # cs)[0 := set_text PUBLISHER_TEXT ((c # cs) ! 0)]" by simp
    then show ?thesis by blast
  next
    case False
    with Cons.prems obtain cs'' where s: "set_first_publisher cs = Some cs''" and c: "cs' = c # cs''"
      by auto
    from Cons.IH [OF s] obtain i where i: "i < length cs" "is_elem (tei ''publisher'') (cs ! i)"
      "\<forall>j<i. \<not> is_elem (tei ''publisher'') (cs ! j)" "cs'' = cs[i := set_text PUBLISHER_TEXT (cs ! i)]"
      by blast
    have "\<forall>j<Suc i. \<not> is_elem (tei ''publisher'') ((c # cs) ! j)"
      using False i(3) by (auto simp: less_Suc_eq_0_disj)
    with i c have "Suc i < length (c # cs) \<and> is_elem (tei ''publisher'') ((c # cs) ! Suc i) \<and>
        (\<forall>j<Suc i. \<not> is_elem (tei ''publisher'') ((c # cs) ! j)) \<and>
        cs' = (c # cs)[Suc i := set_text PUBLISHER_TEXT ((c # cs) ! Suc i)]" by simp
    then show ?thesis by blast
  qed
qed

lemma is_elem_set_text [simp]: "is_elem t (set_text s n) = is_elem t n"
  by (cases n) simp_all

lemma set_text_set_text [simp]: "set_text s (set_text s n) = set_text s n"
  by (cases n) simp_all

lemma set_first_publisher_again:
  "set_first_publisher cs = Some cs' \<Longrightarrow> set_first_publisher cs' = Some cs'"
  by (induction cs arbitrary: cs') (auto split: if_splits)

lemma set_first_publisher_append:
  "set_first_publisher cs = None \<Longrightarrow>
   set_first_publisher (cs @ ds) = map_option ((@) cs) (set_first_publisher ds)"
  by (induction cs) (cases "set_first_publisher ds"; auto split: if_splits)+

lemma count_set_first_publisher:
  "set_first_publisher cs = Some cs' \<Longrightarrow>
   length (filter (is_elem (tei ''publisher'')) cs') = length (filter (is_elem (tei ''publisher'')) cs)"
  by (induction cs arbitrary: cs') (auto split: if_splits)

lemma count_no_publisher:
  "\<not> has_child (tei ''publisher'') cs \<Longrightarrow> filter (is_elem (tei ''publisher'')) cs = []"
  by (simp add: has_child_def list_ex_iff filter_empty_conv)

lemma count_some_publisher:
  "has_child (tei ''publisher'') cs \<Longrightarrow> 1 \<le> length (filter (is_elem (tei ''publisher'')) cs)"
  by (induction cs) (auto simp: has_child_def)

lemma publisher_step_idem: "publisher_step (publisher_step n) = publisher_step n"
proof (cases n)
  case (Element t a x cs y)
  show ?thesis
  proof (cases "set_first_publisher cs")
    case None
    then show ?thesis
      using Element by (simp add: set_first_publisher_append)
  next
    case (Some cs')
    then show ?thesis
      using Element by (simp add: set_first_publisher_again)
  qed
next
  case (Misc c y)
  then show ?thesis by simp
qed

lemma paths_of_publisher_step:
  "paths_of is_pub_stmt anc (publisher_step n) = paths_of is_pub_stmt anc n"
proof (cases n)
  case (Element t a x cs y)
  show ?thesis
  proof (cases "set_first_publisher cs")
    case None
    then show ?thesis
      using Element by (simp add: paths_from_append is_pub_stmt_def)
  next
    case (Some cs')
    then show ?thesis
      using Element paths_from_set_first_publisher [OF shallow_is_pub_stmt Some]
      by (simp add: is_pub_stmt_def)
  qed
next
  case (Misc c y)
  then show ?thesis by simp
qed

lemma pub_stmts_paths: "pub_stmts D = paths_of is_pub_stmt [] D"
  by (simp add: pub_stmts_def map_fst_xpath)

lemma pub_stmts_hd:
  assumes "pub_stmts D = p # ps"
  shows "\<exists>a x cs y. get_at D p = Some (Element (tei ''publicationStmt'') a x cs y)"
proof -
  from assms have "p \<in> set (map fst (xpath is_pub_stmt D))"
    by (simp add: pub_stmts_def)
  then obtain n where n: "(p, n) \<in> set (xpath is_pub_stmt D)" by auto
  from xpath_is_Element [OF n] obtain t a x cs y where e: "n = Element t a x cs y" by blast
  from xpath_sat [OF n] e have "t = tei ''publicationStmt''" by (auto simp: is_pub_stmt_def)
  with xpath_valid [OF n] e show ?thesis by simp
qed

lemma ensure_publisher_idem: "ensure_publisher (ensure_publisher D) = ensure_publisher D"
proof (cases "pub_stmts D")
  case Nil
  then show ?thesis by (simp add: ensure_publisher_def)
next
  case (Cons p ps)
  have "pub_stmts (update_at p publisher_step D) = pub_stmts D"
    unfolding pub_stmts_paths
    by (rule paths_of_update_at [OF shallow_is_pub_stmt paths_of_publisher_step])
  with Cons show ?thesis
    by (simp add: ensure_publisher_def update_at_update_at comp_def publisher_step_idem)
qed

text \<open>
  Claim C7, as amended. The publication-statement containers of the rule are the
  \<open>publicationStmt\<close> elements that are children of a \<open>fileDesc\<close>, in document order. If the
  document has none, \<open>ensure_publisher\<close> returns it unchanged. Otherwise only the first of them
  changes, and only in its children: when it has a \<open>publisher\<close> child, the text of the first
  such child is overwritten with the fixed title; when it has none, a \<open>publisher\<close> with that
  text is appended. The container then has as many \<open>publisher\<close> children as before, or one
  where it had none, and running the rule a second time changes nothing.
\<close>

theorem publisher_rule:
  "(pub_stmts D = [] \<longrightarrow> ensure_publisher D = D) \<and>
   (\<forall>p ps. pub_stmts D = p # ps \<longrightarrow>
      (\<exists>a x cs y cs'.
         get_at D p = Some (Element (tei ''publicationStmt'') a x cs y) \<and>
         get_at (ensure_publisher D) p = Some (Element (tei ''publicationStmt'') a x cs' y) \<and>
         ensure_publisher D = update_at p (\<lambda>n. Element (tei ''publicationStmt'') a x cs' y) D \<and>
         (if has_child (tei ''publisher'') cs
          then \<exists>i<length cs. is_elem (tei ''publisher'') (cs ! i) \<and>
                 (\<forall>j<i. \<not> is_elem (tei ''publisher'') (cs ! j)) \<and>
                 cs' = cs[i := set_text PUBLISHER_TEXT (cs ! i)]
          else cs' = cs @ [Element (tei ''publisher'') [] (Some PUBLISHER_TEXT) [] None]) \<and>
         length (filter (is_elem (tei ''publisher'')) cs') =
           max 1 (length (filter (is_elem (tei ''publisher'')) cs)))) \<and>
   ensure_publisher (ensure_publisher D) = ensure_publisher D"
proof (intro conjI allI impI)
  assume "pub_stmts D = []"
  then show "ensure_publisher D = D" by (simp add: ensure_publisher_def)
next
  show "ensure_publisher (ensure_publisher D) = ensure_publisher D"
    by (rule ensure_publisher_idem)
next
  fix p ps
  assume ps: "pub_stmts D = p # ps"
  from pub_stmts_hd [OF ps] obtain a x cs y where
    g: "get_at D p = Some (Element (tei ''publicationStmt'') a x cs y)" by blast
  let ?n = "Element (tei ''publicationStmt'') a x cs y"
  have R: "ensure_publisher D = update_at p publisher_step D"
    using ps by (simp add: ensure_publisher_def)
  show "\<exists>a x cs y cs'.
         get_at D p = Some (Element (tei ''publicationStmt'') a x cs y) \<and>
         get_at (ensure_publisher D) p = Some (Element (tei ''publicationStmt'') a x cs' y) \<and>
         ensure_publisher D = update_at p (\<lambda>n. Element (tei ''publicationStmt'') a x cs' y) D \<and>
         (if has_child (tei ''publisher'') cs
          then \<exists>i<length cs. is_elem (tei ''publisher'') (cs ! i) \<and>
                 (\<forall>j<i. \<not> is_elem (tei ''publisher'') (cs ! j)) \<and>
                 cs' = cs[i := set_text PUBLISHER_TEXT (cs ! i)]
          else cs' = cs @ [Element (tei ''publisher'') [] (Some PUBLISHER_TEXT) [] None]) \<and>
         length (filter (is_elem (tei ''publisher'')) cs') =
           max 1 (length (filter (is_elem (tei ''publisher'')) cs))"
  proof (cases "set_first_publisher cs")
    case None
    let ?cs' = "cs @ [Element (tei ''publisher'') [] (Some PUBLISHER_TEXT) [] None]"
    have st: "publisher_step ?n = Element (tei ''publicationStmt'') a x ?cs' y"
      using None by simp
    have nc: "\<not> has_child (tei ''publisher'') cs"
      using None by (simp add: set_first_publisher_None)
    have "get_at (ensure_publisher D) p = Some (Element (tei ''publicationStmt'') a x ?cs' y)"
      using get_at_update_at [OF g, of publisher_step] st R by simp
    moreover have "ensure_publisher D = update_at p (\<lambda>n. Element (tei ''publicationStmt'') a x ?cs' y) D"
      unfolding R using st by (intro update_at_cong_at [OF g]) simp
    moreover have "length (filter (is_elem (tei ''publisher'')) ?cs') =
           max 1 (length (filter (is_elem (tei ''publisher'')) cs))"
      using nc by (simp add: count_no_publisher)
    ultimately show ?thesis using g nc by auto
  next
    case (Some cs')
    have st: "publisher_step ?n = Element (tei ''publicationStmt'') a x cs' y"
      using Some by simp
    have hc: "has_child (tei ''publisher'') cs"
      using Some set_first_publisher_None [of cs] by auto
    have "get_at (ensure_publisher D) p = Some (Element (tei ''publicationStmt'') a x cs' y)"
      using get_at_update_at [OF g, of publisher_step] st R by simp
    moreover have "ensure_publisher D = update_at p (\<lambda>n. Element (tei ''publicationStmt'') a x cs' y) D"
      unfolding R using st by (intro update_at_cong_at [OF g]) simp
    moreover have "length (filter (is_elem (tei ''publisher'')) cs') =
           max 1 (length (filter (is_elem (tei ''publisher'')) cs))"
      using count_set_first_publisher [OF Some] count_some_publisher [OF hc] by simp
    ultimately show ?thesis using g hc set_first_publisher_Some [OF Some] by auto
  qed
qed

lemma pub_stmts_ex_pub: "pub_stmts ex_pub = [ [0, 0] ]"
  by (simp add: pub_stmts_paths ex_pub_def is_pub_stmt_def under_def)

lemma pub_stmts_ex_pub_outside: "pub_stmts ex_pub_outside = []"
  by (simp add: pub_stmts_paths ex_pub_outside_def is_pub_stmt_def under_def)

theorem publisher_rule_witness:
  "pub_stmts ex_pub_outside = [] \<and> ensure_publisher ex_pub_outside = ex_pub_outside \<and>
   pub_stmts ex_pub = [ [0, 0] ] \<and>
   get_at (ensure_publisher ex_pub) [0, 0] =
     Some (Element (tei ''publicationStmt'') [] None
             [Element (tei ''publisher'') [] (Some PUBLISHER_TEXT) [] None] None) \<and>
   ensure_publisher (ensure_publisher ex_pub) = ensure_publisher ex_pub"
  using publisher_rule [of ex_pub_outside] publisher_rule [of ex_pub]
    pub_stmts_ex_pub pub_stmts_ex_pub_outside
  by (auto simp: ex_pub_def has_child_def)

text \<open>
  The claim as stated fails on a document whose only \<open>publicationStmt\<close> is not the child of
  a \<open>fileDesc\<close>: the document has a publication-statement container, and the rule neither
  finds nor creates a publisher in it.
\<close>

theorem publisher_skips_other_container:
  "get_at ex_pub_outside [0, 0] = Some (Element (tei ''publicationStmt'') [] None [] None) \<and>
   ensure_publisher ex_pub_outside = ex_pub_outside"
  by (simp add: ensure_publisher_def pub_stmts_ex_pub_outside) (simp add: ex_pub_outside_def)

lemma caldracor_step_idem: "caldracor_step b' (caldracor_step b n) = caldracor_step b n"
  by (cases n) (simp_all add: has_typed_child_def attr_get_def)

lemma paths_of_caldracor_step:
  "paths_of is_pub_stmt anc (caldracor_step b n) = paths_of is_pub_stmt anc n"
  by (cases n) (simp_all add: paths_from_append is_pub_stmt_def)

lemma pub_stmts_caldracor:
  "pub_stmts (update_at p (caldracor_step b) D) = pub_stmts D"
  unfolding pub_stmts_paths
  by (rule paths_of_update_at [OF shallow_is_pub_stmt paths_of_caldracor_step])

lemma ensure_caldracor_id_idem:
  "ensure_caldracor_id (ensure_caldracor_id D b) b' = ensure_caldracor_id D b"
proof (cases "pub_stmts D")
  case Nil
  then show ?thesis by (simp add: ensure_caldracor_id_def)
next
  case (Cons p ps)
  then show ?thesis
    by (simp add: ensure_caldracor_id_def pub_stmts_caldracor update_at_update_at comp_def
        caldracor_step_idem)
qed

text \<open>
  Claim C8, as amended. The container is again the first \<open>publicationStmt\<close> that is the child
  of a \<open>fileDesc\<close>; if the document has none, \<open>ensure_caldracor_id\<close> returns it unchanged for
  every document id. If the container has an \<open>idno\<close> child of type \<open>caldracor\<close>, the document is
  unchanged, whatever the text of that child. Otherwise an \<open>idno\<close> of type \<open>caldracor\<close> whose
  text is the document id is appended to the container, and nothing else changes.
\<close>

theorem caldracor_rule:
  "(pub_stmts D = [] \<longrightarrow> ensure_caldracor_id D basename = D) \<and>
   (\<forall>p ps. pub_stmts D = p # ps \<longrightarrow>
      (\<exists>a x cs y.
         get_at D p = Some (Element (tei ''publicationStmt'') a x cs y) \<and>
         (if has_typed_child (tei ''idno'') (plain ''type'') (U ''caldracor'') cs
          then ensure_caldracor_id D basename = D
          else get_at (ensure_caldracor_id D basename) p =
                 Some (Element (tei ''publicationStmt'') a x
                         (cs @ [Element (tei ''idno'') [(plain ''type'', U ''caldracor'')]
                                  (Some basename) [] None]) y) \<and>
               ensure_caldracor_id D basename =
                 update_at p (append_child (Element (tei ''idno'') [(plain ''type'', U ''caldracor'')]
                                  (Some basename) [] None)) D)))"
proof (intro conjI allI impI)
  assume "pub_stmts D = []"
  then show "ensure_caldracor_id D basename = D" by (simp add: ensure_caldracor_id_def)
next
  fix p ps
  assume ps: "pub_stmts D = p # ps"
  from pub_stmts_hd [OF ps] obtain a x cs y where
    g: "get_at D p = Some (Element (tei ''publicationStmt'') a x cs y)" by blast
  let ?n = "Element (tei ''publicationStmt'') a x cs y"
  let ?new = "Element (tei ''idno'') [(plain ''type'', U ''caldracor'')] (Some basename) [] None"
  have R: "ensure_caldracor_id D basename = update_at p (caldracor_step basename) D"
    using ps by (simp add: ensure_caldracor_id_def)
  show "\<exists>a x cs y.
         get_at D p = Some (Element (tei ''publicationStmt'') a x cs y) \<and>
         (if has_typed_child (tei ''idno'') (plain ''type'') (U ''caldracor'') cs
          then ensure_caldracor_id D basename = D
          else get_at (ensure_caldracor_id D basename) p =
                 Some (Element (tei ''publicationStmt'') a x
                         (cs @ [Element (tei ''idno'') [(plain ''type'', U ''caldracor'')]
                                  (Some basename) [] None]) y) \<and>
               ensure_caldracor_id D basename =
                 update_at p (append_child (Element (tei ''idno'') [(plain ''type'', U ''caldracor'')]
                                  (Some basename) [] None)) D)"
  proof (cases "has_typed_child (tei ''idno'') (plain ''type'') (U ''caldracor'') cs")
    case True
    then have "caldracor_step basename ?n = ?n" by simp
    then have "ensure_caldracor_id D basename = D"
      unfolding R by (rule update_at_id [OF g])
    with g True show ?thesis by auto
  next
    case False
    then have st: "caldracor_step basename ?n = Element (tei ''publicationStmt'') a x (cs @ [?new]) y"
      by simp
    have "get_at (ensure_caldracor_id D basename) p =
            Some (Element (tei ''publicationStmt'') a x (cs @ [?new]) y)"
      using get_at_update_at [OF g, of "caldracor_step basename"] st R by simp
    moreover have "ensure_caldracor_id D basename = update_at p (append_child ?new) D"
      unfolding R using st by (intro update_at_cong_at [OF g]) simp
    ultimately show ?thesis using g False by auto
  qed
qed

lemma pub_stmts_ex_pub_with_id: "pub_stmts ex_pub_with_id = [ [0, 0] ]"
  by (simp add: pub_stmts_paths ex_pub_with_id_def is_pub_stmt_def under_def)

lemma pub_stmts_ex_pub_biblFull: "pub_stmts ex_pub_biblFull = []"
  by (simp add: pub_stmts_paths ex_pub_biblFull_def is_pub_stmt_def under_def)

theorem caldracor_rule_witness:
  "pub_stmts ex_pub_biblFull = [] \<and>
   ensure_caldracor_id ex_pub_biblFull (U ''comedia42'') = ex_pub_biblFull \<and>
   pub_stmts ex_pub = [ [0, 0] ] \<and>
   get_at (ensure_caldracor_id ex_pub (U ''comedia42'')) [0, 0] =
     Some (Element (tei ''publicationStmt'') [] None
             [Element (tei ''idno'') [(plain ''type'', U ''caldracor'')] (Some (U ''comedia42'')) []
                None] None) \<and>
   pub_stmts ex_pub_with_id = [ [0, 0] ] \<and>
   ensure_caldracor_id ex_pub_with_id (U ''comedia42'') = ex_pub_with_id"
  using caldracor_rule [of ex_pub_biblFull "U ''comedia42''"]
    caldracor_rule [of ex_pub "U ''comedia42''"]
    caldracor_rule [of ex_pub_with_id "U ''comedia42''"]
    pub_stmts_ex_pub pub_stmts_ex_pub_biblFull pub_stmts_ex_pub_with_id
  by (auto simp: ex_pub_def ex_pub_with_id_def has_typed_child_def attr_get_def)

text \<open>
  The claim as stated fails on a document whose first \<open>publicationStmt\<close> is not the child of
  a \<open>fileDesc\<close>: that container holds no \<open>idno\<close> of type \<open>caldracor\<close>, and none is created.
\<close>

theorem caldracor_skips_other_container:
  "get_at ex_pub_biblFull [0, 0, 0] = Some (Element (tei ''publicationStmt'') [] None [] None) \<and>
   ensure_caldracor_id ex_pub_biblFull (U ''comedia42'') = ex_pub_biblFull"
  by (simp add: ensure_caldracor_id_def pub_stmts_ex_pub_biblFull) (simp add: ex_pub_biblFull_def)

section \<open>The creation-date rule\<close>

lemma date_attrib_carried: "date_attrib ev = carried_dates ev"
  by (simp add: date_attrib_def carried_dates_def split: option.splits)

lemma xpath_hd_valid:
  "xpath Q D = (p, n) # r \<Longrightarrow> get_at D p = Some n"
  by (rule xpath_valid [of p n Q]) simp

lemma profile_descs_valid:
  assumes "profile_descs D = (p, pd) # ps"
  shows "get_at D p = Some pd" and "\<exists>a x cs y. pd = Element (tei ''profileDesc'') a x cs y"
proof -
  have "(p, pd) \<in> set (profile_descs D)"
    using assms by simp
  then have m: "(p, pd) \<in> set (xpath is_profile_desc D)"
    unfolding profile_descs_def by simp
  show "get_at D p = Some pd" by (rule xpath_valid [OF m])
  from xpath_is_Element [OF m] obtain t a x cs y where e: "pd = Element t a x cs y" by blast
  with xpath_sat [OF m] show "\<exists>a x cs y. pd = Element (tei ''profileDesc'') a x cs y"
    by (auto simp: is_profile_desc_def)
qed

lemma map_fst_profile_descs:
  "map fst (profile_descs D) = filter (\<lambda>p. p \<noteq> []) (paths_of is_profile_desc [] D)"
proof -
  have "map fst (filter (\<lambda>(p, n). p \<noteq> []) xs) = filter (\<lambda>p. p \<noteq> []) (map fst xs)"
    for xs :: "(path \<times> node) list"
    by (induction xs) auto
  then show ?thesis by (simp add: profile_descs_def map_fst_xpath)
qed

lemma paths_of_append_creation:
  "paths_of is_profile_desc anc (append_child (new_creation ev) n) = paths_of is_profile_desc anc n"
  by (cases n) (simp_all add: paths_from_append is_profile_desc_def new_creation_def)

lemma ensure_creation_from_events_idem:
  "ensure_creation_from_events (ensure_creation_from_events D) = ensure_creation_from_events D"
proof (cases "profile_descs D")
  case Nil
  then show ?thesis by (simp add: ensure_creation_from_events_def)
next
  case (Cons ppd ps)
  obtain p pd where ppd: "ppd = (p, pd)" by (cases ppd)
  note pds = Cons [unfolded ppd]
  from profile_descs_valid [OF pds] obtain a x cs y where
    g: "get_at D p = Some pd" and pd: "pd = Element (tei ''profileDesc'') a x cs y" by blast
  show ?thesis
  proof (cases "has_child (tei ''creation'') (children_of pd) \<or> select_event D = None")
    case True
    then have "ensure_creation_from_events D = D"
      using pds by (auto simp: ensure_creation_from_events_def)
    then show ?thesis by simp
  next
    case False
    then obtain ev where ev: "select_event D = Some ev" by auto
    let ?f = "append_child (new_creation (attrib_of ev))"
    let ?D' = "update_at p ?f D"
    have R: "ensure_creation_from_events D = ?D'"
      using pds False ev by (simp add: ensure_creation_from_events_def)
    have "map fst (profile_descs ?D') = map fst (profile_descs D)"
      unfolding map_fst_profile_descs
      by (simp add: paths_of_update_at [OF shallow_is_profile_desc paths_of_append_creation])
    with pds obtain n' ps' where pds': "profile_descs ?D' = (p, n') # ps'"
      by (cases "profile_descs ?D'") auto
    from profile_descs_valid(1) [OF pds'] get_at_update_at [OF g, of ?f]
    have n': "n' = ?f pd" by simp
    have "has_child (tei ''creation'') (children_of n')"
      unfolding n' pd by (simp add: new_creation_def has_child_def)
    then have "ensure_creation_from_events ?D' = ?D'"
      using pds' by (simp add: ensure_creation_from_events_def)
    with R show ?thesis by simp
  qed
qed

lemma select_event_cases:
  "select_event D = (case events (U ''written'') D of e # es \<Rightarrow> Some e
                     | [] \<Rightarrow> (case events (U ''print'') D of e # es \<Rightarrow> Some e | [] \<Rightarrow> None))"
  by (simp add: select_event_def)

lemma ensure_creation_updates:
  assumes "profile_descs D = (p, pd) # ps"
    and "\<not> has_child (tei ''creation'') (children_of pd)"
    and "select_event D = Some ev"
  shows "ensure_creation_from_events D =
           update_at p (append_child (Element (tei ''creation'') [] None
              [Element (tei ''date'') (carried_dates (attrib_of ev)) None [] None] None)) D"
    and "get_at (ensure_creation_from_events D) p =
           Some (append_child (Element (tei ''creation'') [] None
              [Element (tei ''date'') (carried_dates (attrib_of ev)) None [] None] None) pd)"
proof -
  show R: "ensure_creation_from_events D =
           update_at p (append_child (Element (tei ''creation'') [] None
              [Element (tei ''date'') (carried_dates (attrib_of ev)) None [] None] None)) D"
    using assms by (simp add: ensure_creation_from_events_def new_creation_def date_attrib_carried)
  show "get_at (ensure_creation_from_events D) p =
           Some (append_child (Element (tei ''creation'') [] None
              [Element (tei ''date'') (carried_dates (attrib_of ev)) None [] None] None) pd)"
    unfolding R by (rule get_at_update_at [OF profile_descs_valid(1) [OF assms(1)] ])
qed

text \<open>
  Claim C3, as amended. The rule looks at the first \<open>profileDesc\<close> below the root element;
  without one the document is unchanged. If that \<open>profileDesc\<close> has a \<open>creation\<close> child,
  the document is unchanged whatever events it holds. If it has none, the rule selects the
  first \<open>event\<close> of type \<open>written\<close> under \<open>standOff/listEvent\<close> or, when there is none,
  the first of type \<open>print\<close>; when there is neither, the document is unchanged. Otherwise the
  only change is a \<open>creation\<close> child appended to that \<open>profileDesc\<close>, holding one \<open>date\<close>
  whose attributes are exactly those of \<open>when\<close>, \<open>notBefore\<close>, \<open>notAfter\<close> that the selected
  event carries with a non-empty value.
\<close>

theorem creation_rule:
  "(profile_descs D = [] \<longrightarrow> ensure_creation_from_events D = D) \<and>
   (\<forall>p pd ps. profile_descs D = (p, pd) # ps \<longrightarrow>
      get_at D p = Some pd \<and>
      (has_child (tei ''creation'') (children_of pd) \<longrightarrow> ensure_creation_from_events D = D) \<and>
      (\<not> has_child (tei ''creation'') (children_of pd) \<longrightarrow>
         (events (U ''written'') D = [] \<and> events (U ''print'') D = [] \<longrightarrow>
            ensure_creation_from_events D = D) \<and>
         (\<forall>e es. events (U ''written'') D = e # es \<or>
                  events (U ''written'') D = [] \<and> events (U ''print'') D = e # es \<longrightarrow>
            ensure_creation_from_events D =
              update_at p (append_child (Element (tei ''creation'') [] None
                 [Element (tei ''date'') (carried_dates (attrib_of e)) None [] None] None)) D \<and>
            get_at (ensure_creation_from_events D) p =
              Some (append_child (Element (tei ''creation'') [] None
                 [Element (tei ''date'') (carried_dates (attrib_of e)) None [] None] None) pd))))"
proof (intro conjI allI impI)
  assume "profile_descs D = []"
  then show "ensure_creation_from_events D = D"
    by (simp add: ensure_creation_from_events_def)
next
  fix p pd ps
  assume pds: "profile_descs D = (p, pd) # ps"
  show "get_at D p = Some pd" by (rule profile_descs_valid(1) [OF pds])
  {
    assume "has_child (tei ''creation'') (children_of pd)"
    then show "ensure_creation_from_events D = D"
      using pds by (simp add: ensure_creation_from_events_def)
  }
  assume nc: "\<not> has_child (tei ''creation'') (children_of pd)"
  {
    assume "events (U ''written'') D = [] \<and> events (U ''print'') D = []"
    then have "select_event D = None" by (simp add: select_event_cases)
    then show "ensure_creation_from_events D = D"
      using pds nc by (simp add: ensure_creation_from_events_def)
  }
  fix e es
  assume "events (U ''written'') D = e # es \<or>
          events (U ''written'') D = [] \<and> events (U ''print'') D = e # es"
  then have sel: "select_event D = Some e" by (auto simp: select_event_cases)
  show "ensure_creation_from_events D =
              update_at p (append_child (Element (tei ''creation'') [] None
                 [Element (tei ''date'') (carried_dates (attrib_of e)) None [] None] None)) D"
    by (rule ensure_creation_updates(1) [OF pds nc sel])
  show "get_at (ensure_creation_from_events D) p =
              Some (append_child (Element (tei ''creation'') [] None
                 [Element (tei ''date'') (carried_dates (attrib_of e)) None [] None] None) pd)"
    by (rule ensure_creation_updates(2) [OF pds nc sel])
qed

lemma carried_dates_sub:
  "attr_get (carried_dates ev) k = Some v \<Longrightarrow> attr_get ev k = Some v \<and> v \<noteq> []"
  by (auto simp: carried_dates_def attr_get_def split: option.splits if_splits)

lemma attr_get_filter_key:
  "attr_get (filter (\<lambda>kv. fst kv \<noteq> k) a) k' = (if k' = k then None else attr_get a k')"
  by (induction a) (auto simp: attr_get_def)

lemma carried_dates_drop_empty:
  "attr_get ev k = Some [] \<Longrightarrow> carried_dates (filter (\<lambda>kv. fst kv \<noteq> k) ev) = carried_dates ev"
  by (simp add: carried_dates_def attr_get_filter_key)

lemma carried_dates_nonempty: "\<forall>k v. attr_get (carried_dates ev) k = Some v \<longrightarrow> v \<noteq> []"
  using carried_dates_sub by blast

lemma carried_dates_empty_absent:
  assumes "attr_get ev k = Some []"
  shows "attr_get (carried_dates ev) k = None"
proof (cases "attr_get (carried_dates ev) k")
  case None
  then show ?thesis .
next
  case (Some v)
  from carried_dates_sub [OF Some] assms show ?thesis by auto
qed

lemma get_at_new_date:
  "get_at (append_child (Element (tei ''creation'') [] None [Element (tei ''date'') d None [] None] None)
            (Element t a x cs y)) [length cs, 0] =
     Some (Element (tei ''date'') d None [] None)"
  by simp

text \<open>
  Claim C10. Whenever the rule creates a \<open>date\<close> node, none of its attributes has the empty
  string as value; an attribute that the selected event carries with the empty string is
  not on the \<open>date\<close> node, and the node's attributes are those the rule would have copied
  had the event not carried that attribute at all.
\<close>

theorem creation_skips_empty_attributes:
  assumes "profile_descs D = (p, pd) # ps"
    and "\<not> has_child (tei ''creation'') (children_of pd)"
    and "select_event D = Some ev"
  shows "\<exists>d. get_at (ensure_creation_from_events D) (p @ [length (children_of pd), 0]) =
               Some (Element (tei ''date'') d None [] None) \<and>
             (\<forall>k v. attr_get d k = Some v \<longrightarrow> v \<noteq> []) \<and>
             (\<forall>k. attr_get (attrib_of ev) k = Some [] \<longrightarrow>
                  attr_get d k = None \<and>
                  d = date_attrib (filter (\<lambda>kv. fst kv \<noteq> k) (attrib_of ev)))"
proof (intro exI conjI allI impI)
  from profile_descs_valid(2) [OF assms(1)] obtain a x cs y where
    pd: "pd = Element (tei ''profileDesc'') a x cs y" by blast
  have "get_at (ensure_creation_from_events D) (p @ [length (children_of pd), 0]) =
          get_at (append_child (Element (tei ''creation'') [] None
              [Element (tei ''date'') (carried_dates (attrib_of ev)) None [] None] None) pd)
             [length (children_of pd), 0]"
    by (rule get_at_append [OF ensure_creation_updates(2) [OF assms] ])
  also have "\<dots> = Some (Element (tei ''date'') (carried_dates (attrib_of ev)) None [] None)"
    unfolding pd children_of.simps by (rule get_at_new_date)
  finally show "get_at (ensure_creation_from_events D) (p @ [length (children_of pd), 0]) =
          Some (Element (tei ''date'') (carried_dates (attrib_of ev)) None [] None)" .
next
  fix k v
  assume "attr_get (carried_dates (attrib_of ev)) k = Some v"
  from carried_dates_sub [OF this] show "v \<noteq> []" by simp
next
  fix k
  assume e: "attr_get (attrib_of ev) k = Some []"
  show "attr_get (carried_dates (attrib_of ev)) k = None"
    by (rule carried_dates_empty_absent [OF e])
  show "carried_dates (attrib_of ev) = date_attrib (filter (\<lambda>kv. fst kv \<noteq> k) (attrib_of ev))"
    unfolding date_attrib_carried by (rule carried_dates_drop_empty [OF e, symmetric])
qed

lemmas query_eval =
  profile_descs_def events_def xpath_def is_profile_desc_def is_event_def under_def attr_get_def

lemma eval_ex_written:
  "profile_descs ex_written = [([0], ex_profile_desc)]"
  "events (U ''written'') ex_written = [ex_event_written]"
  by (simp_all add: query_eval ex_written_def ex_profile_desc_def ex_event_written_def)

lemma eval_ex_print:
  "profile_descs ex_print = [([0], ex_profile_desc)]"
  "events (U ''written'') ex_print = []"
  "events (U ''print'') ex_print = [ex_event_print]"
  by (simp_all add: query_eval ex_print_def ex_profile_desc_def ex_event_print_def)

lemma eval_ex_creation_present:
  "profile_descs ex_creation_present =
     [([0], Element (tei ''profileDesc'') [] None [Element (tei ''creation'') [] None [] None] None)]"
  by (simp_all add: query_eval ex_creation_present_def)

lemma eval_ex_no_event:
  "profile_descs ex_no_event = [([0], ex_profile_desc)]"
  "events (U ''written'') ex_no_event = []"
  "events (U ''print'') ex_no_event = []"
  by (simp_all add: query_eval ex_no_event_def ex_profile_desc_def)

lemma eval_ex_no_profile: "profile_descs ex_no_profile = []"
  by (simp add: query_eval ex_no_profile_def)

lemma eval_ex_empty_when:
  "profile_descs ex_empty_when = [([0], ex_profile_desc)]"
  "events (U ''written'') ex_empty_when = [ex_event_empty_when]"
  by (simp_all add: query_eval ex_empty_when_def ex_profile_desc_def ex_event_empty_when_def)

lemma carried_examples:
  "carried_dates (attrib_of ex_event_written) =
     [(plain ''notBefore'', U ''1630''), (plain ''notAfter'', U ''1640'')]"
  "carried_dates (attrib_of ex_event_print) = [(plain ''when'', U ''1651'')]"
  "carried_dates (attrib_of ex_event_empty_when) = [(plain ''notBefore'', U ''1630'')]"
  by (simp_all add: carried_dates_def attr_get_def ex_event_written_def ex_event_print_def
      ex_event_empty_when_def)

theorem creation_rule_witness:
  "get_at (ensure_creation_from_events ex_written) [0] =
     Some (Element (tei ''profileDesc'') [] None
             [Element (tei ''creation'') [] None
                [Element (tei ''date'')
                   [(plain ''notBefore'', U ''1630''), (plain ''notAfter'', U ''1640'')] None [] None]
                None] None) \<and>
   get_at (ensure_creation_from_events ex_print) [0] =
     Some (Element (tei ''profileDesc'') [] None
             [Element (tei ''creation'') [] None
                [Element (tei ''date'') [(plain ''when'', U ''1651'')] None [] None] None] None) \<and>
   ensure_creation_from_events ex_creation_present = ex_creation_present \<and>
   ensure_creation_from_events ex_no_event = ex_no_event \<and>
   ensure_creation_from_events ex_no_profile = ex_no_profile"
  using creation_rule [of ex_written] creation_rule [of ex_print]
    creation_rule [of ex_creation_present] creation_rule [of ex_no_event]
    creation_rule [of ex_no_profile]
  by (simp add: eval_ex_written eval_ex_print eval_ex_creation_present eval_ex_no_event
      eval_ex_no_profile carried_examples has_child_def ex_profile_desc_def)
    (simp add: ex_written_def ex_print_def)

text \<open>
  The claim as stated fails where the selected event carries a temporal attribute with the
  empty string as value: the event carries \<open>when\<close>, the \<open>date\<close> node does not.
\<close>

theorem creation_drops_empty_attribute:
  "events (U ''written'') ex_empty_when = [ex_event_empty_when] \<and>
   attr_get (attrib_of ex_event_empty_when) (plain ''when'') = Some [] \<and>
   get_at (ensure_creation_from_events ex_empty_when) [0, 0, 0] =
     Some (Element (tei ''date'') [(plain ''notBefore'', U ''1630'')] None [] None)"
proof -
  have "select_event ex_empty_when = Some ex_event_empty_when"
    by (simp add: select_event_def eval_ex_empty_when)
  then have "ensure_creation_from_events ex_empty_when =
     update_at [0] (append_child (new_creation (attrib_of ex_event_empty_when))) ex_empty_when"
    by (simp add: ensure_creation_from_events_def eval_ex_empty_when ex_profile_desc_def
        has_child_def)
  then have "get_at (ensure_creation_from_events ex_empty_when) [0, 0, 0] =
     Some (Element (tei ''date'') (carried_dates (attrib_of ex_event_empty_when)) None [] None)"
    by (simp add: ex_empty_when_def new_creation_def date_attrib_carried)
  then show ?thesis
    by (simp add: eval_ex_empty_when carried_examples) (simp add: ex_event_empty_when_def attr_get_def)
qed

theorem creation_skips_empty_attributes_witness:
  "profile_descs ex_empty_when = [([0], ex_profile_desc)] \<and>
   \<not> has_child (tei ''creation'') (children_of ex_profile_desc) \<and>
   select_event ex_empty_when = Some ex_event_empty_when \<and>
   attr_get (attrib_of ex_event_empty_when) (plain ''when'') = Some [] \<and>
   (\<exists>d. get_at (ensure_creation_from_events ex_empty_when) [0, 0, 0] =
          Some (Element (tei ''date'') d None [] None) \<and>
        attr_get d (plain ''when'') = None)"
proof -
  have h1: "profile_descs ex_empty_when = ([0], ex_profile_desc) # []"
    by (simp add: eval_ex_empty_when)
  have h2: "\<not> has_child (tei ''creation'') (children_of ex_profile_desc)"
    by (simp add: ex_profile_desc_def has_child_def)
  have h3: "select_event ex_empty_when = Some ex_event_empty_when"
    by (simp add: select_event_def eval_ex_empty_when)
  have h4: "attr_get (attrib_of ex_event_empty_when) (plain ''when'') = Some []"
    by (simp add: ex_event_empty_when_def attr_get_def)
  from creation_skips_empty_attributes [OF h1 h2 h3] obtain d where
    d: "get_at (ensure_creation_from_events ex_empty_when)
          ([0] @ [length (children_of ex_profile_desc), 0]) =
        Some (Element (tei ''date'') d None [] None)"
    and e: "\<forall>k. attr_get (attrib_of ex_event_empty_when) k = Some [] \<longrightarrow>
              attr_get d k = None \<and>
              d = date_attrib (filter (\<lambda>kv. fst kv \<noteq> k) (attrib_of ex_event_empty_when))"
    by blast
  from e h4 have "attr_get d (plain ''when'') = None" by blast
  moreover from d have "get_at (ensure_creation_from_events ex_empty_when) [0, 0, 0] =
        Some (Element (tei ''date'') d None [] None)"
    by (simp add: ex_profile_desc_def)
  ultimately show ?thesis using h1 h2 h3 h4 by blast
qed

section \<open>The name rule\<close>

lemma normalize_no_match:
  "\<not> has_match par n \<Longrightarrow> normalize_persname_in par n = n"
proof (induction n arbitrary: par)
  case (Element t a x cs y)
  from Element.prems have "\<forall>c\<in>set cs. \<not> has_match (Some t) c"
    by (auto simp: list_ex_iff)
  with Element.IH have "map (normalize_persname_in (Some t)) cs = cs"
    by (simp add: map_idI)
  with Element.prems show ?case by auto
next
  case (Misc c y)
  show ?case by simp
qed

lemma rojas_entry_matches:
  "persname_matches [(xml_id, U ''rojas''), (plain ''corresp'', ORCID_ROJAS)] x cs"
  by (simp add: persname_matches_def attr_get_def)

lemma normalize_rojas_entry:
  "scanned par t \<Longrightarrow> normalize_persname_in par (rojas_entry t) = rojas_entry t"
  by (simp add: rojas_entry_def rojas_entry_matches)

lemma normalize_persname_in_idem:
  "persname_stable par n \<Longrightarrow>
   normalize_persname_in par (normalize_persname_in par n) = normalize_persname_in par n"
proof (induction n arbitrary: par)
  case (Element t a x cs y)
  show ?case
  proof (cases "scanned par t")
    case True
    show ?thesis
    proof (cases "persname_matches a x cs")
      case m: True
      with True show ?thesis by (simp add: normalize_rojas_entry)
    next
      case False
      with True Element.prems have "\<not> has_match par (Element t a x cs y)" by simp
      then have "normalize_persname_in par (Element t a x cs y) = Element t a x cs y"
        by (rule normalize_no_match)
      then show ?thesis by simp
    qed
  next
    case False
    with Element.prems have "\<forall>c\<in>set cs. persname_stable (Some t) c"
      by (simp add: list_all_iff)
    with Element.IH have "map (normalize_persname_in (Some t) \<circ> normalize_persname_in (Some t)) cs
        = map (normalize_persname_in (Some t)) cs"
      by simp
    with False show ?thesis by simp
  qed
next
  case (Misc c y)
  show ?case by simp
qed

lemma normalize_persname_rojas_idem:
  "persname_stable None D \<Longrightarrow>
   normalize_persname_rojas (normalize_persname_rojas D) = normalize_persname_rojas D"
  by (simp add: normalize_persname_rojas_rec normalize_persname_in_idem)

lemma get_at_normalize_persname_in:
  assumes "get_at D p = Some n"
    and "\<forall>(q, ancq, m)\<in>set (elems anc D).
           strict_prefix q p \<and> is_persname_entry ancq m \<longrightarrow> \<not> entry_matches m"
  shows "\<exists>anc'. get_at (normalize_persname_in (parent_tag anc) D) p =
                   Some (normalize_persname_in (parent_tag anc') n) \<and>
                 (\<forall>t a x cs y. n = Element t a x cs y \<longrightarrow> (p, anc', n) \<in> set (elems anc D))"
  using assms
proof (induction D p arbitrary: anc rule: get_at.induct)
  case (1 n')
  then have "n' = n" by simp
  then have "get_at (normalize_persname_in (parent_tag anc) n') [] =
                   Some (normalize_persname_in (parent_tag anc) n) \<and>
                 (\<forall>t a x cs y. n = Element t a x cs y \<longrightarrow> ([], anc, n) \<in> set (elems anc n'))"
    by auto
  then show ?case by blast
next
  case (2 t a x cs y i p)
  from "2.prems"(1) have i: "i < length cs" and g: "get_at (cs ! i) p = Some n"
    by (auto split: if_splits)
  have root: "([], anc, Element t a x cs y) \<in> set (elems anc (Element t a x cs y))"
    by simp
  have "\<not> (scanned (parent_tag anc) t \<and> persname_matches a x cs)"
  proof
    assume "scanned (parent_tag anc) t \<and> persname_matches a x cs"
    then have "is_persname_entry anc (Element t a x cs y) \<and> entry_matches (Element t a x cs y)"
      by (simp add: scanned_entry)
    moreover have "strict_prefix [] (i # p)" by simp
    ultimately show False using "2.prems"(2) root by blast
  qed
  then have R: "normalize_persname_in (parent_tag anc) (Element t a x cs y) =
                  Element t a x (map (normalize_persname_in (Some t)) cs) y"
    by auto
  have sub: "\<forall>(q, ancq, m)\<in>set (elems (t # anc) (cs ! i)).
           strict_prefix q p \<and> is_persname_entry ancq m \<longrightarrow> \<not> entry_matches m"
  proof (intro ballI, clarify)
    fix q ancq m
    assume m: "(q, ancq, m) \<in> set (elems (t # anc) (cs ! i))" and sp: "strict_prefix q p"
      and e: "is_persname_entry ancq m" and em: "entry_matches m"
    from m i have "(i # q, ancq, m) \<in> set (elems anc (Element t a x cs y))"
      unfolding elems_Element_set by blast
    moreover from sp have "strict_prefix (i # q) (i # p)" by simp
    ultimately show False using "2.prems"(2) e em by blast
  qed
  from "2.IH" [OF i g sub] obtain anc' where
    a1: "get_at (normalize_persname_in (parent_tag (t # anc)) (cs ! i)) p =
           Some (normalize_persname_in (parent_tag anc') n)"
    and a2: "\<forall>t' a' x' cs' y'. n = Element t' a' x' cs' y' \<longrightarrow>
               (p, anc', n) \<in> set (elems (t # anc) (cs ! i))"
    by blast
  have "get_at (normalize_persname_in (parent_tag anc) (Element t a x cs y)) (i # p) =
          Some (normalize_persname_in (parent_tag anc') n)"
    unfolding R using i a1 by simp
  moreover have "\<forall>t' a' x' cs' y'. n = Element t' a' x' cs' y' \<longrightarrow>
                   (i # p, anc', n) \<in> set (elems anc (Element t a x cs y))"
    using a2 i unfolding elems_Element_set by blast
  ultimately show ?case by blast
next
  case (3 c y i p)
  then show ?case by simp
qed

lemma xpath_iff:
  "(p, n) \<in> set (xpath Q D) \<longleftrightarrow> (\<exists>anc. (p, anc, n) \<in> set (elems [] D) \<and> Q anc n)"
  by (force simp: xpath_def)

lemma elems_unique:
  "(p, a1, n1) \<in> set (elems anc D) \<Longrightarrow> (p, a2, n2) \<in> set (elems anc D) \<Longrightarrow> a1 = a2 \<and> n1 = n2"
proof (induction D arbitrary: p anc)
  case (Element t a x cs y)
  show ?case
  proof (cases p)
    case Nil
    with Element.prems show ?thesis unfolding elems_Element_set by auto
  next
    case (Cons i q)
    with Element.prems have i: "i < length cs"
      and 1: "(q, a1, n1) \<in> set (elems (t # anc) (cs ! i))"
      and 2: "(q, a2, n2) \<in> set (elems (t # anc) (cs ! i))"
      unfolding elems_Element_set by auto
    from i have "cs ! i \<in> set cs" by simp
    from Element.IH [OF this 1 2] show ?thesis .
  qed
next
  case (Misc c y)
  then show ?case by simp
qed

lemma elems_trans:
  "(p, anc1, n) \<in> set (elems anc D) \<Longrightarrow> (q, anc2, m) \<in> set (elems anc1 n) \<Longrightarrow>
   (p @ q, anc2, m) \<in> set (elems anc D)"
proof (induction D arbitrary: p anc)
  case (Element t a x cs y)
  show ?case
  proof (cases p)
    case Nil
    with Element.prems show ?thesis unfolding elems_Element_set [of p] by auto
  next
    case (Cons i r)
    with Element.prems(1) have i: "i < length cs"
      and 1: "(r, anc1, n) \<in> set (elems (t # anc) (cs ! i))"
      unfolding elems_Element_set by auto
    from i have "cs ! i \<in> set cs" by simp
    from Element.IH [OF this 1 Element.prems(2)]
    have "(r @ q, anc2, m) \<in> set (elems (t # anc) (cs ! i))" .
    with i Cons show ?thesis unfolding elems_Element_set by auto
  qed
next
  case (Misc c y)
  then show ?case by simp
qed

lemma has_match_elems:
  "has_match (parent_tag anc) n \<Longrightarrow>
   \<exists>q ancq m. (q, ancq, m) \<in> set (elems anc n) \<and> is_persname_entry ancq m \<and> entry_matches m"
proof (induction n arbitrary: anc)
  case (Element t a x cs y)
  show ?case
  proof (cases "scanned (parent_tag anc) t \<and> persname_matches a x cs")
    case True
    then have "([], anc, Element t a x cs y) \<in> set (elems anc (Element t a x cs y)) \<and>
       is_persname_entry anc (Element t a x cs y) \<and> entry_matches (Element t a x cs y)"
      by (simp add: scanned_entry)
    then show ?thesis by blast
  next
    case False
    with Element.prems obtain c where c: "c \<in> set cs" "has_match (Some t) c"
      by (auto simp: list_ex_iff)
    then obtain i where i: "i < length cs" "c = cs ! i" by (auto simp: in_set_conv_nth)
    from c(2) have "has_match (parent_tag (t # anc)) c" by simp
    from Element.IH [OF c(1) this] obtain q ancq m where
      m: "(q, ancq, m) \<in> set (elems (t # anc) c)" "is_persname_entry ancq m" "entry_matches m"
      by blast
    from m(1) i have "(i # q, ancq, m) \<in> set (elems anc (Element t a x cs y))"
      unfolding elems_Element_set by blast
    with m show ?thesis by blast
  qed
next
  case (Misc c y)
  then show ?case by simp
qed

lemma rojas_entry_not_unmatched:
  "\<not> persname_matches a x cs \<Longrightarrow> Element t a x cs' y \<noteq> rojas_entry t'"
  by (auto simp: rojas_entry_def rojas_entry_matches persname_matches_def attr_get_def)

text \<open>
  Claim C2, as amended. Take a \<open>persName\<close> entry that the rule scans (its parent is a
  \<open>respStmt\<close>) and that does not lie inside a scanned entry that matches. After
  \<open>normalize_persname_rojas\<close> there is at its place the canonical entry (\<open>xml:id\<close> \<open>rojas\<close>, the
  fixed \<open>corresp\<close>, a \<open>forename\<close> and a \<open>surname\<close> child with the fixed texts) if and only if
  the entry matches: its \<open>xml:id\<close> is \<open>rojas\<close>, or its flattened text contains both \<open>Rojas\<close>
  and \<open>Antonio\<close>. An entry that does not match keeps its tag, attributes, text and tail,
  and its children are changed only where scanned entries below them are themselves
  rebuilt; when no scanned entry below it matches, it is identical to the input.
\<close>

theorem persname_rule:
  assumes "(p, e) \<in> set (persname_entries D)"
    and "\<forall>(q, e')\<in>set (persname_entries D). strict_prefix q p \<longrightarrow> \<not> entry_matches e'"
  shows "(get_at (normalize_persname_rojas D) p = Some (rojas_entry (tei ''persName'')) \<longleftrightarrow>
            entry_matches e) \<and>
         (\<not> entry_matches e \<longrightarrow>
            (\<exists>a x cs y. e = Element (tei ''persName'') a x cs y \<and>
               get_at (normalize_persname_rojas D) p =
                 Some (Element (tei ''persName'') a x
                         (map (normalize_persname_in (Some (tei ''persName''))) cs) y)) \<and>
            ((\<forall>(q, e')\<in>set (persname_entries D). strict_prefix p q \<longrightarrow> \<not> entry_matches e') \<longrightarrow>
               get_at (normalize_persname_rojas D) p = Some e))"
proof -
  from assms(1) obtain anc where el: "(p, anc, e) \<in> set (elems [] D)"
    and en: "is_persname_entry anc e"
    by (auto simp: persname_entries_def xpath_iff)
  from elems_is_Element [OF el] obtain t a x cs y where e: "e = Element t a x cs y" by blast
  from en e have sc: "scanned (parent_tag anc) t"
    by (simp add: scanned_entry)
  then have t: "t = tei ''persName''" by (simp add: scanned_def)
  have g: "get_at D p = Some e" by (rule elems_valid [OF el])
  have above: "\<forall>(q, ancq, m)\<in>set (elems [] D).
           strict_prefix q p \<and> is_persname_entry ancq m \<longrightarrow> \<not> entry_matches m"
    using assms(2) by (auto simp: persname_entries_def xpath_iff)
  from get_at_normalize_persname_in [OF g above] e obtain anc' where
    r: "get_at (normalize_persname_in (parent_tag []) D) p =
          Some (normalize_persname_in (parent_tag anc') e)"
    and el': "(p, anc', e) \<in> set (elems [] D)"
    by blast
  from elems_unique [OF el el'] have "anc' = anc" by simp
  with r have res: "get_at (normalize_persname_rojas D) p =
                      Some (normalize_persname_in (parent_tag anc) e)"
    by (simp add: normalize_persname_rojas_rec)
  have m: "entry_matches e \<Longrightarrow>
             get_at (normalize_persname_rojas D) p = Some (rojas_entry (tei ''persName''))"
    using res sc by (simp add: e t)
  have nm: "\<not> entry_matches e \<Longrightarrow> get_at (normalize_persname_rojas D) p =
                 Some (Element (tei ''persName'') a x
                         (map (normalize_persname_in (Some (tei ''persName''))) cs) y)"
    using res by (simp add: e t)
  have same: "get_at (normalize_persname_rojas D) p = Some e"
    if ne: "\<not> entry_matches e"
      and below: "\<forall>(q, e')\<in>set (persname_entries D). strict_prefix p q \<longrightarrow> \<not> entry_matches e'"
  proof -
    have "\<not> has_match (parent_tag anc) e"
    proof
      assume "has_match (parent_tag anc) e"
      from has_match_elems [OF this] obtain q ancq m where
        q: "(q, ancq, m) \<in> set (elems anc e)" "is_persname_entry ancq m" "entry_matches m"
        by blast
      from elems_trans [OF el q(1)] q(2) have pe: "(p @ q, m) \<in> set (persname_entries D)"
        by (auto simp: persname_entries_def xpath_iff)
      show False
      proof (cases q)
        case Nil
        with elems_valid [OF q(1)] have "m = e" by simp
        with q(3) ne show False by simp
      next
        case (Cons i r)
        then have "strict_prefix p (p @ q)" by (simp add: strict_prefix_def)
        with below pe q(3) show False by blast
      qed
    qed
    then have "normalize_persname_in (parent_tag anc) e = e" by (rule normalize_no_match)
    with res show ?thesis by simp
  qed
  have iff: "get_at (normalize_persname_rojas D) p = Some (rojas_entry (tei ''persName'')) \<longleftrightarrow>
            entry_matches e"
  proof
    assume c: "get_at (normalize_persname_rojas D) p = Some (rojas_entry (tei ''persName''))"
    show "entry_matches e"
    proof (rule ccontr)
      assume ne: "\<not> entry_matches e"
      then have "\<not> persname_matches a x cs" by (simp add: e)
      then have "Element (tei ''persName'') a x
                   (map (normalize_persname_in (Some (tei ''persName''))) cs) y \<noteq>
                 rojas_entry (tei ''persName'')"
        by (rule rojas_entry_not_unmatched)
      moreover from nm [OF ne] c have "Element (tei ''persName'') a x
                   (map (normalize_persname_in (Some (tei ''persName''))) cs) y =
                 rojas_entry (tei ''persName'')"
        by simp
      ultimately show False by contradiction
    qed
  next
    assume "entry_matches e"
    then show "get_at (normalize_persname_rojas D) p = Some (rojas_entry (tei ''persName''))"
      by (rule m)
  qed
  from iff nm same e t show ?thesis by blast
qed

lemma entries_ex_resp: "persname_entries ex_resp = [([0], ex_entry_rojas), ([1], ex_entry_bob)]"
  by (simp add: persname_entries_def xpath_def ex_resp_def is_persname_entry_def under_def
      ex_entry_rojas_def ex_entry_bob_def)

lemma matches_ex_entries: "entry_matches ex_entry_rojas" "\<not> entry_matches ex_entry_bob"
  by (simp_all add: ex_entry_rojas_def ex_entry_bob_def persname_matches_def attr_get_def
      full_text_def itertext_def strip_def py_isspace_def replace_nbsp_def U_def)

lemma rojas_entry_explicit:
  "rojas_entry (tei ''persName'') =
     Element (tei ''persName'')
       [(xml_id, U ''rojas''), (plain ''corresp'', U ''https://orcid.org/0000-0002-8916-4997'')]
       None
       [Element (tei ''forename'') [] (Some (U ''Antonio'')) [] None,
        Element (tei ''surname'') [] (Some (U ''Rojas Castro'')) [] None]
       None"
  by (simp add: rojas_entry_def ORCID_ROJAS_def)

theorem persname_rule_witness:
  "persname_entries ex_resp = [([0], ex_entry_rojas), ([1], ex_entry_bob)] \<and>
   entry_matches ex_entry_rojas \<and> \<not> entry_matches ex_entry_bob \<and>
   get_at (normalize_persname_rojas ex_resp) [0] =
     Some (Element (tei ''persName'')
             [(xml_id, U ''rojas''), (plain ''corresp'', U ''https://orcid.org/0000-0002-8916-4997'')]
             None
             [Element (tei ''forename'') [] (Some (U ''Antonio'')) [] None,
              Element (tei ''surname'') [] (Some (U ''Rojas Castro'')) [] None]
             None) \<and>
   get_at (normalize_persname_rojas ex_resp) [1] = Some ex_entry_bob"
proof -
  have a0: "([0], ex_entry_rojas) \<in> set (persname_entries ex_resp)"
    and a1: "([1], ex_entry_bob) \<in> set (persname_entries ex_resp)"
    by (simp_all add: entries_ex_resp)
  have b0: "\<forall>(q, e')\<in>set (persname_entries ex_resp). strict_prefix q [0] \<longrightarrow> \<not> entry_matches e'"
    and b1: "\<forall>(q, e')\<in>set (persname_entries ex_resp). strict_prefix q [1] \<longrightarrow> \<not> entry_matches e'"
    and c1: "\<forall>(q, e')\<in>set (persname_entries ex_resp). strict_prefix [1] q \<longrightarrow> \<not> entry_matches e'"
    by (simp_all add: entries_ex_resp)
  from persname_rule [OF a0 b0] persname_rule [OF a1 b1] c1 matches_ex_entries
  show ?thesis
    by (simp add: entries_ex_resp rojas_entry_explicit)
qed

text \<open>
  The claim as stated fails for a scanned entry inside a scanned entry that matches: the
  inner entry does not match, and it is not left as it was but discarded with the rest of
  the content of the enclosing entry.
\<close>

theorem persname_nested_entry_discarded:
  "persname_entries ex_nested_in_match =
     [([0], Element (tei ''persName'') [(xml_id, U ''rojas'')] None
              [Element (tei ''respStmt'') [] None [ex_entry_bob] None] None),
      ([0, 0, 0], ex_entry_bob)] \<and>
   \<not> entry_matches ex_entry_bob \<and>
   get_at (normalize_persname_rojas ex_nested_in_match) [0, 0, 0] = None"
proof -
  have "normalize_persname_rojas ex_nested_in_match =
          Element (tei ''respStmt'') [] None [rojas_entry (tei ''persName'')] None"
    by (simp add: normalize_persname_rojas_rec ex_nested_in_match_def scanned_def
        persname_matches_def attr_get_def)
  then have "get_at (normalize_persname_rojas ex_nested_in_match) [0, 0, 0] = None"
    by (simp add: rojas_entry_def)
  moreover have "persname_entries ex_nested_in_match =
     [([0], Element (tei ''persName'') [(xml_id, U ''rojas'')] None
              [Element (tei ''respStmt'') [] None [ex_entry_bob] None] None),
      ([0, 0, 0], ex_entry_bob)]"
    by (simp add: persname_entries_def xpath_def ex_nested_in_match_def is_persname_entry_def
        under_def ex_entry_bob_def)
  ultimately show ?thesis using matches_ex_entries(2) by simp
qed

subsection \<open>Two properties of the name rule worth knowing\<close>

text \<open>
  The flattened text joins the text pieces with single spaces: a name that is split over
  an inner element is not found in it.
\<close>

lemma full_text_joins_pieces:
  "full_text (Some (U ''Ro'')) [Element (tei ''hi'') [] (Some (U ''jas'')) [] (Some (U '' Antonio''))] =
     U ''Ro jas  Antonio''"
  "\<not> persname_matches [] (Some (U ''Ro''))
       [Element (tei ''hi'') [] (Some (U ''jas'')) [] (Some (U '' Antonio''))]"
  by (simp_all add: persname_matches_def attr_get_def full_text_def itertext_def strip_def
      py_isspace_def replace_nbsp_def U_def)

text \<open>
  A rebuilt entry has no tail: the text that followed the entry in its parent is dropped
  with the entry's former content.
\<close>

lemma rebuilt_entry_has_no_tail:
  "scanned par t \<Longrightarrow> persname_matches a x cs \<Longrightarrow>
   normalize_persname_in par (Element t a x cs (Some s)) =
     Element t [(xml_id, U ''rojas''), (plain ''corresp'', ORCID_ROJAS)] None
       [Element (tei ''forename'') [] (Some (U ''Antonio'')) [] None,
        Element (tei ''surname'') [] (Some (U ''Rojas Castro'')) [] None]
       None"
  by (simp add: rojas_entry_def)

section \<open>Idempotence\<close>

lemma is_idno_set_corresp: "is_idno ty t (attr_set (plain ''corresp'') v a) = is_idno ty t a"
  by (simp add: is_idno_def attr_get_set_other)

lemma wikidata_attrib_idem: "wikidata_attrib (wikidata_attrib a x) x = wikidata_attrib a x"
  by (simp add: wikidata_attrib_def Let_def attr_get_set_same WIKIDATA_URL_def)

lemma is_idno_wikidata_attrib: "is_idno ty t (wikidata_attrib a x) = is_idno ty t a"
  by (simp add: wikidata_attrib_def Let_def is_idno_set_corresp)

lemma add_wikidata_corresp_idem:
  "add_wikidata_corresp (add_wikidata_corresp n) = add_wikidata_corresp n"
  by (induction n) (simp_all add: wikidata_attrib_idem is_idno_wikidata_attrib)

lemma not_pnd_pnd_attrib: "\<not> is_idno (U ''pnd'') t (pnd_attrib a x)"
  by (simp add: pnd_attrib_def Let_def is_idno_def attr_get_set_other attr_get_set_same)

lemma convert_pnd_to_gnd_idem:
  "convert_pnd_to_gnd (convert_pnd_to_gnd n) = convert_pnd_to_gnd n"
  by (induction n) (simp_all add: not_pnd_pnd_attrib)

lemma is_elem_langusage [simp]: "is_elem t (ensure_langusage_spanish n) = is_elem t n"
  by (cases n) simp_all

lemma has_child_map_langusage [simp]:
  "has_child t (map ensure_langusage_spanish cs) = has_child t cs"
  by (simp add: has_child_def list_ex_iff)

lemma langusage_new [simp]: "ensure_langusage_spanish new_langUsage = new_langUsage"
  by (simp add: new_langUsage_def)

lemma has_child_new_langUsage [simp]: "has_child (tei ''langUsage'') [new_langUsage]"
  by (simp add: has_child_def new_langUsage_def)

lemma ensure_langusage_spanish_idem:
  "ensure_langusage_spanish (ensure_langusage_spanish n) = ensure_langusage_spanish n"
  by (induction n) simp_all

text \<open>
  Claim C1, as amended. Applying a rule twice gives the same document as applying it once
  (the same tree: tags, attributes, texts, tails and children), for seven of the eight
  rules on every document, and for the name rule on every document in which no scanned
  entry that does not match encloses a scanned entry that matches.
\<close>

theorem rules_idempotent:
  "add_wikidata_corresp (add_wikidata_corresp D) = add_wikidata_corresp D \<and>
   convert_pnd_to_gnd (convert_pnd_to_gnd D) = convert_pnd_to_gnd D \<and>
   ensure_langusage_spanish (ensure_langusage_spanish D) = ensure_langusage_spanish D \<and>
   ensure_textclass_keywords (ensure_textclass_keywords D) = ensure_textclass_keywords D \<and>
   (persname_stable None D \<longrightarrow>
      normalize_persname_rojas (normalize_persname_rojas D) = normalize_persname_rojas D) \<and>
   ensure_publisher (ensure_publisher D) = ensure_publisher D \<and>
   ensure_caldracor_id (ensure_caldracor_id D basename) basename = ensure_caldracor_id D basename \<and>
   ensure_creation_from_events (ensure_creation_from_events D) = ensure_creation_from_events D"
  by (simp add: add_wikidata_corresp_idem convert_pnd_to_gnd_idem ensure_langusage_spanish_idem
      ensure_textclass_keywords_idem normalize_persname_rojas_idem ensure_publisher_idem
      ensure_caldracor_id_idem ensure_creation_from_events_idem)

theorem rules_idempotent_witness:
  "persname_stable None ex_resp \<and>
   normalize_persname_rojas (normalize_persname_rojas ex_resp) = normalize_persname_rojas ex_resp"
proof -
  have "persname_stable None ex_resp"
    by (simp add: ex_resp_def scanned_def)
  with rules_idempotent [of ex_resp] show ?thesis by simp
qed

text \<open>
  The claim as stated fails for the name rule. Where an entry that does not match encloses
  an entry that matches, the first pass rebuilds the inner entry; its fixed texts are then
  part of the flattened text of the outer entry, which matches in the second pass and is
  rebuilt, losing its content.
\<close>

theorem persname_rule_not_idempotent:
  "normalize_persname_rojas ex_match_in_other =
     Element (tei ''respStmt'') [] None
       [Element (tei ''persName'') [] (Some (U ''X''))
          [Element (tei ''respStmt'') [] None [rojas_entry (tei ''persName'')] None] None] None \<and>
   normalize_persname_rojas (normalize_persname_rojas ex_match_in_other) =
     Element (tei ''respStmt'') [] None [rojas_entry (tei ''persName'')] None \<and>
   normalize_persname_rojas (normalize_persname_rojas ex_match_in_other) \<noteq>
     normalize_persname_rojas ex_match_in_other"
proof -
  have 1: "normalize_persname_rojas ex_match_in_other =
     Element (tei ''respStmt'') [] None
       [Element (tei ''persName'') [] (Some (U ''X''))
          [Element (tei ''respStmt'') [] None [rojas_entry (tei ''persName'')] None] None] None"
    by (simp add: normalize_persname_rojas_rec ex_match_in_other_def scanned_def
        persname_matches_def attr_get_def full_text_def itertext_def strip_def py_isspace_def
        replace_nbsp_def U_def)
  have 2: "normalize_persname_rojas (Element (tei ''respStmt'') [] None
       [Element (tei ''persName'') [] (Some (U ''X''))
          [Element (tei ''respStmt'') [] None [rojas_entry (tei ''persName'')] None] None] None) =
     Element (tei ''respStmt'') [] None [rojas_entry (tei ''persName'')] None"
    by (simp add: normalize_persname_rojas_rec scanned_def rojas_entry_def
        persname_matches_def attr_get_def full_text_def itertext_def strip_def py_isspace_def
        replace_nbsp_def U_def)
  have 3: "Element (tei ''respStmt'') [] None [rojas_entry (tei ''persName'')] None \<noteq>
     Element (tei ''respStmt'') [] None
       [Element (tei ''persName'') [] (Some (U ''X''))
          [Element (tei ''respStmt'') [] None [rojas_entry (tei ''persName'')] None] None] None"
    by (simp add: rojas_entry_def)
  from 1 2 3 show ?thesis by simp
qed

section \<open>What the rules leave alone\<close>

lemma frame_at_same: "frame_at T D D p"
  by (simp add: frame_at_def)

lemma targets_member:
  assumes "(p, anc, n) \<in> set (elems [] D)" and "Q anc n"
  shows "p \<in> set (targets Q D)"
proof -
  from assms have "(p, n) \<in> set (xpath Q D)"
    unfolding xpath_iff by blast
  then have "fst (p, n) \<in> fst ` set (xpath Q D)" by (rule imageI)
  then show ?thesis by (simp add: targets_def)
qed

lemma targets_empty:
  "targets Q D = [] \<Longrightarrow> (p, anc, n) \<in> set (elems [] D) \<Longrightarrow> \<not> Q anc n"
  using targets_member [of p anc n D Q] by auto

lemma update_at_frame:
  "\<not> prefix q p \<Longrightarrow>
   map_option shell (get_at (update_at q f D) p) = map_option shell (get_at D p)"
proof (induction q f D arbitrary: p rule: update_at.induct)
  case (1 f n0)
  then show ?case by simp
next
  case (2 i q f t a x cs y)
  show ?case
  proof (cases p)
    case Nil
    then show ?thesis by simp
  next
    case (Cons j p')
    show ?thesis
    proof (cases "i < length cs \<and> j = i")
      case True
      with "2.prems" Cons have "\<not> prefix q p'" by simp
      from "2.IH" [OF _ this] True Cons show ?thesis by simp
    next
      case False
      with Cons show ?thesis by auto
    qed
  qed
next
  case (3 i q f c y)
  then show ?case by (cases p) auto
qed

lemma frame_at_update_at: "frame_at [q] D (update_at q f D) p"
  by (simp add: frame_at_def outside_def update_at_frame)

subsection \<open>The rules that visit every selected node\<close>

lemma paths_from_member:
  "i < length cs \<Longrightarrow> q \<in> set (paths_of Q anc (cs ! i)) \<Longrightarrow>
   (k + i) # q \<in> set (paths_from Q anc k cs)"
proof (induction cs arbitrary: i k)
  case Nil
  then show ?case by simp
next
  case (Cons c cs)
  show ?case
  proof (cases i)
    case 0
    with Cons.prems show ?thesis by simp
  next
    case (Suc j)
    with Cons.prems have "j < length cs" "q \<in> set (paths_of Q anc (cs ! j))" by simp_all
    from Cons.IH [OF this, of "Suc k"] Suc show ?thesis by simp
  qed
qed

text \<open>
  A rule that rebuilds or extends the nodes that pass its test, and otherwise keeps the
  shell of a node and goes on in its children, has the same nodes with the same shells as
  its input at every path that is not at or below a node that passes the test.
\<close>

lemma frame_rec:
  assumes keep: "\<And>anc t a x cs y. \<not> Q anc (Element t a x cs y) \<Longrightarrow>
                   R anc (Element t a x cs y) = Element t a x (map (R (t # anc)) cs) y"
    and misc: "\<And>anc c y. R anc (Misc c y) = Misc c y"
  shows "\<forall>q\<in>set (paths_of Q anc D). \<not> prefix q p \<Longrightarrow>
         map_option shell (get_at (R anc D) p) = map_option shell (get_at D p)"
proof (induction D p arbitrary: anc rule: get_at.induct)
  case (1 n)
  show ?case
  proof (cases n)
    case (Element t a x cs y)
    with "1.prems" have "\<not> Q anc (Element t a x cs y)" by auto
    from keep [OF this] Element show ?thesis by simp
  next
    case (Misc c y)
    then show ?thesis by (simp add: misc)
  qed
next
  case (2 t a x cs y i p)
  from "2.prems" have nq: "\<not> Q anc (Element t a x cs y)" by auto
  note r = keep [OF nq]
  show ?case
  proof (cases "i < length cs")
    case True
    have "\<forall>q\<in>set (paths_of Q (t # anc) (cs ! i)). \<not> prefix q p"
    proof
      fix q
      assume "q \<in> set (paths_of Q (t # anc) (cs ! i))"
      from paths_from_member [OF True this, of 0]
      have "i # q \<in> set (paths_of Q anc (Element t a x cs y))" by simp
      with "2.prems" have "\<not> prefix (i # q) (i # p)" by blast
      then show "\<not> prefix q p" by simp
    qed
    from "2.IH" [OF True this] True show ?thesis by (simp add: r)
  next
    case False
    then show ?thesis by (simp add: r)
  qed
next
  case (3 c y i p)
  show ?case by (simp add: misc)
qed

lemma frame_for_each:
  assumes keep: "\<And>t a x cs y. \<not> W (Element t a x cs y) \<Longrightarrow>
                   R (Element t a x cs y) = Element t a x (map R cs) y"
    and misc: "\<And>c y. R (Misc c y) = Misc c y"
  shows "frame_at (targets (\<lambda>anc. W) D) D (R D) p"
proof -
  have "map_option shell (get_at (R D) p) = map_option shell (get_at D p)"
    if "\<forall>q\<in>set (paths_of (\<lambda>anc. W) [] D). \<not> prefix q p"
    using frame_rec [where Q = "\<lambda>anc. W" and R = "\<lambda>anc. R" and anc = "[]", OF keep misc that] .
  then show ?thesis
    by (simp add: frame_at_def outside_def list_all_iff targets_def map_fst_xpath)
qed

lemma unwritten_same:
  assumes step: "\<And>t a x cs y. \<not> W (Element t a x cs y) \<Longrightarrow>
                   R (Element t a x cs y) = Element t a x (map R cs) y"
    and misc: "\<And>c y. R (Misc c y) = Misc c y"
  shows "targets (\<lambda>anc. W) D = [] \<Longrightarrow> R D = D"
proof -
  have "(\<forall>(p, anc', n)\<in>set (elems anc D). \<not> W n) \<Longrightarrow> R D = D" for anc
  proof (induction D arbitrary: anc)
    case (Element t a x cs y)
    have "\<not> W (Element t a x cs y)"
      using Element.prems by auto
    moreover have "R c = c" if c: "c \<in> set cs" for c
    proof -
      from c obtain i where i: "i < length cs" "c = cs ! i" by (auto simp: in_set_conv_nth)
      have "\<forall>(p, anc', n)\<in>set (elems (t # anc) c). \<not> W n"
      proof (intro ballI, clarify)
        fix p anc' n
        assume "(p, anc', n) \<in> set (elems (t # anc) c)" and w: "W n"
        with i have "(i # p, anc', n) \<in> set (elems anc (Element t a x cs y))"
          unfolding elems_Element_set by blast
        with Element.prems w show False by blast
      qed
      from Element.IH [OF c this] show ?thesis .
    qed
    ultimately show ?case by (simp add: step map_idI)
  next
    case (Misc c y)
    show ?case by (rule misc)
  qed
  moreover assume "targets (\<lambda>anc. W) D = []"
  then have "\<forall>(p, anc', n)\<in>set (elems [] D). \<not> W n"
    using targets_empty [of "\<lambda>anc. W" D] by blast
  ultimately show ?thesis by blast
qed

lemma frame_wikidata:
  "frame_at (targets (\<lambda>anc. wikidata_writes) D) D (add_wikidata_corresp D) p"
  by (rule frame_for_each [where W = wikidata_writes])
     (auto simp: wikidata_attrib_def Let_def)

lemma frame_pnd:
  "frame_at (targets (\<lambda>anc. pnd_writes) D) D (convert_pnd_to_gnd D) p"
  by (rule frame_for_each [where W = pnd_writes]) auto

lemma frame_langusage:
  "frame_at (targets (\<lambda>anc. langusage_writes) D) D (ensure_langusage_spanish D) p"
  by (rule frame_for_each [where W = langusage_writes]) auto

lemma frame_keywords:
  "frame_at (targets (\<lambda>anc. keywords_writes) D) D (ensure_textclass_keywords D) p"
  by (rule frame_for_each [where W = keywords_writes])
     (auto simp: textclass_children_missing)

lemma noop_wikidata:
  "targets (\<lambda>anc. wikidata_writes) D = [] \<Longrightarrow> add_wikidata_corresp D = D"
  by (rule unwritten_same [where W = wikidata_writes])
     (auto simp: wikidata_attrib_def Let_def)

lemma noop_pnd:
  "targets (\<lambda>anc. pnd_writes) D = [] \<Longrightarrow> convert_pnd_to_gnd D = D"
  by (rule unwritten_same [where W = pnd_writes]) auto

lemma noop_langusage:
  "targets (\<lambda>anc. langusage_writes) D = [] \<Longrightarrow> ensure_langusage_spanish D = D"
  by (rule unwritten_same [where W = langusage_writes]) auto

lemma noop_keywords:
  "targets (\<lambda>anc. keywords_writes) D = [] \<Longrightarrow> ensure_textclass_keywords D = D"
  by (rule unwritten_same [where W = keywords_writes])
     (auto simp: textclass_children_missing)

subsection \<open>The name rule\<close>

lemma frame_persname:
  "frame_at (targets persname_writes D) D (normalize_persname_rojas D) p"
proof -
  have keep: "normalize_persname_in (parent_tag anc) (Element t a x cs y) =
                Element t a x (map (normalize_persname_in (parent_tag (t # anc))) cs) y"
    if "\<not> persname_writes anc (Element t a x cs y)" for anc t a x cs y
    using that by (auto simp: persname_writes_def scanned_entry)
  have "map_option shell (get_at (normalize_persname_in (parent_tag []) D) p) =
          map_option shell (get_at D p)"
    if "\<forall>q\<in>set (paths_of persname_writes [] D). \<not> prefix q p"
    using frame_rec [where Q = persname_writes and R = "\<lambda>anc. normalize_persname_in (parent_tag anc)"
        and anc = "[]", OF keep _ that] by simp
  then show ?thesis
    by (simp add: frame_at_def outside_def list_all_iff targets_def map_fst_xpath
        normalize_persname_rojas_rec)
qed

lemma noop_persname:
  assumes "targets persname_writes D = []"
  shows "normalize_persname_rojas D = D"
proof -
  have "\<not> has_match None D"
  proof
    assume "has_match None D"
    then have "has_match (parent_tag []) D" by simp
    from has_match_elems [OF this] obtain q ancq m where
      m: "(q, ancq, m) \<in> set (elems [] D)" and "is_persname_entry ancq m" "entry_matches m"
      by blast
    then have "persname_writes ancq m" by (simp add: persname_writes_def)
    from targets_member [OF m, of persname_writes, OF this] assms show False by simp
  qed
  then show ?thesis
    unfolding normalize_persname_rojas_rec by (rule normalize_no_match)
qed

subsection \<open>The rules that work on one container\<close>

lemma frame_publisher: "frame_at (publisher_targets D) D (ensure_publisher D) p"
proof (cases "pub_stmts D")
  case Nil
  then show ?thesis by (simp add: ensure_publisher_def frame_at_same)
next
  case (Cons q qs)
  then show ?thesis
    by (simp add: ensure_publisher_def publisher_targets_def frame_at_update_at)
qed

lemma noop_publisher: "publisher_targets D = [] \<Longrightarrow> ensure_publisher D = D"
  by (cases "pub_stmts D") (simp_all add: ensure_publisher_def publisher_targets_def)

lemma caldracor_cases:
  "caldracor_targets D = [] \<and> ensure_caldracor_id D b = D \<or>
   (\<exists>q. caldracor_targets D = [q] \<and> ensure_caldracor_id D b = update_at q (caldracor_step b) D)"
proof (cases "pub_stmts D")
  case Nil
  then show ?thesis by (simp add: ensure_caldracor_id_def caldracor_targets_def)
next
  case (Cons q qs)
  from pub_stmts_hd [OF Cons] obtain a x cs y where
    g: "get_at D q = Some (Element (tei ''publicationStmt'') a x cs y)" by blast
  show ?thesis
  proof (cases "has_typed_child (tei ''idno'') (plain ''type'') (U ''caldracor'') cs")
    case True
    then have "caldracor_step b (Element (tei ''publicationStmt'') a x cs y) =
                 Element (tei ''publicationStmt'') a x cs y" by simp
    from update_at_id [of D q _ "caldracor_step b", OF g this] Cons g True show ?thesis
      by (simp add: ensure_caldracor_id_def caldracor_targets_def)
  next
    case False
    with Cons g show ?thesis
      by (simp add: ensure_caldracor_id_def caldracor_targets_def)
  qed
qed

lemma frame_caldracor: "frame_at (caldracor_targets D) D (ensure_caldracor_id D b) p"
  using caldracor_cases [of D b] by (auto simp: frame_at_same frame_at_update_at)

lemma noop_caldracor: "caldracor_targets D = [] \<Longrightarrow> ensure_caldracor_id D b = D"
  using caldracor_cases [of D b] by auto

lemma creation_cases:
  "creation_targets D = [] \<and> ensure_creation_from_events D = D \<or>
   (\<exists>q f. creation_targets D = [q] \<and> ensure_creation_from_events D = update_at q f D)"
proof (cases "profile_descs D")
  case Nil
  then show ?thesis by (simp add: ensure_creation_from_events_def creation_targets_def)
next
  case (Cons qpd qs)
  obtain q pd where "qpd = (q, pd)" by (cases qpd)
  with Cons show ?thesis
    by (cases "select_event D") (auto simp: ensure_creation_from_events_def creation_targets_def)
qed

lemma frame_creation: "frame_at (creation_targets D) D (ensure_creation_from_events D) p"
  using creation_cases [of D] by (auto simp: frame_at_same frame_at_update_at)

lemma noop_creation: "creation_targets D = [] \<Longrightarrow> ensure_creation_from_events D = D"
  using creation_cases [of D] by auto

text \<open>
  Claim C9. For each rule, take the nodes it writes to: the nodes its query selects and
  its guard lets through. At every place that is neither one of them nor below one of them,
  the output has a node exactly when the input has one, and the node has the same name,
  attributes, text and tail: outside the nodes it writes to, a rule changes no node, removes
  none and adds none. A rule that writes to no node returns the document as it was. (A node
  the name rule rebuilds is a node the rule writes to: \<open>clear()\<close> resets all of its fields,
  its tail too.)
\<close>

theorem rules_frame:
  "frame_at (targets (\<lambda>anc. wikidata_writes) D) D (add_wikidata_corresp D) p \<and>
   frame_at (targets (\<lambda>anc. pnd_writes) D) D (convert_pnd_to_gnd D) p \<and>
   frame_at (targets (\<lambda>anc. langusage_writes) D) D (ensure_langusage_spanish D) p \<and>
   frame_at (targets (\<lambda>anc. keywords_writes) D) D (ensure_textclass_keywords D) p \<and>
   frame_at (targets persname_writes D) D (normalize_persname_rojas D) p \<and>
   frame_at (publisher_targets D) D (ensure_publisher D) p \<and>
   frame_at (caldracor_targets D) D (ensure_caldracor_id D basename) p \<and>
   frame_at (creation_targets D) D (ensure_creation_from_events D) p \<and>
   (targets (\<lambda>anc. wikidata_writes) D = [] \<longrightarrow> add_wikidata_corresp D = D) \<and>
   (targets (\<lambda>anc. pnd_writes) D = [] \<longrightarrow> convert_pnd_to_gnd D = D) \<and>
   (targets (\<lambda>anc. langusage_writes) D = [] \<longrightarrow> ensure_langusage_spanish D = D) \<and>
   (targets (\<lambda>anc. keywords_writes) D = [] \<longrightarrow> ensure_textclass_keywords D = D) \<and>
   (targets persname_writes D = [] \<longrightarrow> normalize_persname_rojas D = D) \<and>
   (publisher_targets D = [] \<longrightarrow> ensure_publisher D = D) \<and>
   (caldracor_targets D = [] \<longrightarrow> ensure_caldracor_id D basename = D) \<and>
   (creation_targets D = [] \<longrightarrow> ensure_creation_from_events D = D)"
  by (intro conjI impI frame_wikidata frame_pnd frame_langusage frame_keywords frame_persname
      frame_publisher frame_caldracor frame_creation noop_wikidata noop_pnd noop_langusage
      noop_keywords noop_persname noop_publisher noop_caldracor noop_creation)

lemma targets_ex_no_profile:
  "targets (\<lambda>anc. wikidata_writes) ex_no_profile = []"
  "targets (\<lambda>anc. pnd_writes) ex_no_profile = []"
  "targets (\<lambda>anc. langusage_writes) ex_no_profile = []"
  "targets (\<lambda>anc. keywords_writes) ex_no_profile = []"
  "targets persname_writes ex_no_profile = []"
  "publisher_targets ex_no_profile = []"
  "caldracor_targets ex_no_profile = []"
  "creation_targets ex_no_profile = []"
  by (simp_all add: targets_def xpath_def ex_no_profile_def is_idno_def persname_writes_def
      is_persname_entry_def publisher_targets_def caldracor_targets_def creation_targets_def
      pub_stmts_def profile_descs_def is_pub_stmt_def is_profile_desc_def)

lemma targets_ex_resp: "targets persname_writes ex_resp = [ [0] ]"
proof -
  have "xpath persname_writes ex_resp = filter (\<lambda>(p, n). entry_matches n) (persname_entries ex_resp)"
    by (simp add: persname_entries_def xpath_def persname_writes_def filter_map comp_def
        case_prod_unfold)
  then show ?thesis
    by (simp add: targets_def entries_ex_resp matches_ex_entries)
qed

lemma targets_ex_no_event: "targets (\<lambda>anc. langusage_writes) ex_no_event = [ [0] ]"
  by (simp add: targets_def xpath_def ex_no_event_def has_child_def)

lemma targets_ex_textclass_one: "targets (\<lambda>anc. keywords_writes) ex_textclass_one = [ [0] ]"
  by (simp add: targets_def xpath_def ex_textclass_one_def ex_own_gnd_group_def
      missing_groups_def has_keywords_def has_typed_child_def attr_get_def schemes_distinct)

theorem rules_frame_witness:
  "targets (\<lambda>anc. wikidata_writes) ex_no_profile = [] \<and>
   add_wikidata_corresp ex_no_profile = ex_no_profile \<and>
   targets (\<lambda>anc. pnd_writes) ex_no_profile = [] \<and>
   convert_pnd_to_gnd ex_no_profile = ex_no_profile \<and>
   targets (\<lambda>anc. langusage_writes) ex_no_profile = [] \<and>
   ensure_langusage_spanish ex_no_profile = ex_no_profile \<and>
   targets (\<lambda>anc. keywords_writes) ex_no_profile = [] \<and>
   ensure_textclass_keywords ex_no_profile = ex_no_profile \<and>
   targets persname_writes ex_no_profile = [] \<and>
   normalize_persname_rojas ex_no_profile = ex_no_profile \<and>
   publisher_targets ex_no_profile = [] \<and>
   ensure_publisher ex_no_profile = ex_no_profile \<and>
   caldracor_targets ex_no_profile = [] \<and>
   ensure_caldracor_id ex_no_profile (U ''comedia42'') = ex_no_profile \<and>
   creation_targets ex_no_profile = [] \<and>
   ensure_creation_from_events ex_no_profile = ex_no_profile \<and>
   targets persname_writes ex_resp = [ [0] ] \<and> outside [ [0] ] [1] \<and> outside [ [0] ] [2] \<and>
   get_at ex_resp [1] = Some ex_entry_bob \<and>
   map_option shell (get_at (normalize_persname_rojas ex_resp) [1]) = Some ex_entry_bob \<and>
   get_at ex_resp [2] = None \<and>
   get_at (normalize_persname_rojas ex_resp) [2] = None \<and>
   targets (\<lambda>anc. langusage_writes) ex_no_event = [ [0] ] \<and>
   get_at ex_no_event [1] = None \<and>
   get_at (ensure_langusage_spanish ex_no_event) [1] = None \<and>
   targets (\<lambda>anc. keywords_writes) ex_textclass_one = [ [0] ] \<and>
   get_at ex_textclass_one [1] = None \<and>
   get_at (ensure_textclass_keywords ex_textclass_one) [1] = None"
proof -
  have o: "outside [ [0] ] [1]" "outside [ [0] ] [2]"
    by (simp_all add: outside_def)
  have g: "get_at ex_resp [1] = Some ex_entry_bob" "get_at ex_resp [2] = None"
    "get_at ex_no_event [1] = None" "get_at ex_textclass_one [1] = None"
    by (simp_all add: ex_resp_def ex_entry_bob_def ex_no_event_def ex_textclass_one_def)
  have s: "shell ex_entry_bob = ex_entry_bob"
    by (simp add: ex_entry_bob_def)
  from rules_frame [of ex_resp "[1]"] o g s
  have f1: "map_option shell (get_at (normalize_persname_rojas ex_resp) [1]) = Some ex_entry_bob"
    by (simp add: frame_at_def targets_ex_resp)
  from rules_frame [of ex_resp "[2]"] o g
  have f2: "get_at (normalize_persname_rojas ex_resp) [2] = None"
    by (simp add: frame_at_def targets_ex_resp)
  from rules_frame [of ex_no_event "[1]"] o g
  have f3: "get_at (ensure_langusage_spanish ex_no_event) [1] = None"
    by (simp add: frame_at_def targets_ex_no_event)
  from rules_frame [of ex_textclass_one "[1]"] o g
  have f4: "get_at (ensure_textclass_keywords ex_textclass_one) [1] = None"
    by (simp add: frame_at_def targets_ex_textclass_one)
  from rules_frame [of ex_no_profile "[]" "U ''comedia42''"] targets_ex_no_profile
    f1 f2 f3 f4 o g
  show ?thesis
    by (simp add: targets_ex_resp targets_ex_no_event targets_ex_textclass_one)
qed

end
